theory Spec2Isabelle
  imports Main "HOL-Library.Signed_Division"
begin

section \<open>Page replacement: the reference string and the three policies\<close>

text \<open>
  A shallow embedding of \<^verbatim>\<open>PageReplacement.h\<close>. A \<^verbatim>\<open>std::vector<int>\<close> or
  \<^verbatim>\<open>std::deque<int>\<close> is an \<open>int list\<close>; an iterator is a position in it, \<open>0\<close>
  for \<^verbatim>\<open>begin()\<close> and the length for \<^verbatim>\<open>end()\<close>. Dereferencing or erasing at a position
  that holds no element, popping an empty container, and using an iterator of a deque
  after a \<^verbatim>\<open>push_back\<close> has invalidated it, are undefined in C++; the model makes
  them the error value of a sum type, so that every such step is a branch that can be
  reached or shown unreachable.
\<close>

datatype error = OutOfRange | DivisionByZero | LengthError | InvalidIterator

subsection \<open>Containers\<close>

text \<open>Reading the element at a position: \<^verbatim>\<open>*i\<close>.\<close>

definition deref :: "int list \<Rightarrow> nat \<Rightarrow> int option" where
  "deref xs i = (if i < length xs then Some (xs ! i) else None)"

text \<open>\<^verbatim>\<open>erase(i)\<close>: the elements after position \<open>i\<close> move down by one.\<close>

definition erase :: "int list \<Rightarrow> nat \<Rightarrow> error + int list" where
  "erase xs i = (if i < length xs then Inr (take i xs @ drop (Suc i) xs) else Inl OutOfRange)"

subsection \<open>The sanitizer\<close>

text \<open>
  \<^verbatim>\<open>
  for (auto i = ref_string.end(); i != ref_string.begin(); --i) {
      if (*i == *(i - 1)) {
          ref_string.erase(i);
      }
  }
  \<close>
  The position \<open>i\<close> runs from the length down to \<open>1\<close>; the loop ends at position \<open>0\<close>.
\<close>

fun clean_loop :: "int list \<Rightarrow> nat \<Rightarrow> error + int list" where
  "clean_loop xs 0 = Inr xs"
| "clean_loop xs (Suc k) =
     (case deref xs (Suc k) of
        None \<Rightarrow> Inl OutOfRange
      | Some a \<Rightarrow>
          (case deref xs k of
             None \<Rightarrow> Inl OutOfRange
           | Some b \<Rightarrow>
               if a = b
               then (case erase xs (Suc k) of Inl e \<Rightarrow> Inl e | Inr ys \<Rightarrow> clean_loop ys k)
               else clean_loop xs k))"

definition CleanRefString :: "int list \<Rightarrow> error + int list" where
  "CleanRefString ref_string = clean_loop ref_string (length ref_string)"

subsection \<open>The policy object\<close>

text \<open>
  The three fields of \<^verbatim>\<open>AbstractPageReplacement\<close>; a name cannot end in an underscore
  here, so the member \<^verbatim>\<open>ref_string_\<close> is the field \<open>ref_string_m\<close>, and so on. The
  constructor copies the reference string, sanitizes the copy and stores the two bounds.
\<close>

record page_replacement =
  ref_string_m :: "int list"
  num_pages_m :: int
  num_frames_m :: int

definition AbstractPageReplacement :: "int list \<Rightarrow> int \<Rightarrow> int \<Rightarrow> error + page_replacement" where
  "AbstractPageReplacement ref_string num_pages num_frames =
     (case CleanRefString ref_string of
        Inl e \<Rightarrow> Inl e
      | Inr cleaned \<Rightarrow>
          Inr \<lparr>ref_string_m = cleaned, num_pages_m = num_pages, num_frames_m = num_frames\<rparr>)"

text \<open>
  \<^verbatim>\<open>FindInContainer\<close> walks the container from \<^verbatim>\<open>begin()\<close> to \<^verbatim>\<open>end()\<close> and stops at the
  first element equal to the needle.
\<close>

fun FindInContainer :: "int \<Rightarrow> int list \<Rightarrow> bool" where
  "FindInContainer needle [] = False"
| "FindInContainer needle (x # haystack) =
     (if x = needle then True else FindInContainer needle haystack)"

text \<open>
  The cast \<^verbatim>\<open>(size_t) num_frames_\<close> of an \<^verbatim>\<open>int\<close> to a 64-bit unsigned value: a negative
  bound wraps around to a huge one.
\<close>

definition size_t :: "int \<Rightarrow> nat" where
  "size_t n = nat (n mod 2 ^ 64)"

text \<open>\<^verbatim>\<open>pop_front()\<close> of a deque; popping the empty deque is undefined.\<close>

definition pop_front :: "int list \<Rightarrow> error + int list" where
  "pop_front xs = (case xs of [] \<Rightarrow> Inl OutOfRange | x # ys \<Rightarrow> Inr ys)"

text \<open>
  The state of a replay is the pair of \<^verbatim>\<open>current_pages\<close> and \<^verbatim>\<open>page_faults\<close>. The counter
  is an \<^verbatim>\<open>int\<close> in the source; it counts at most one fault per reference, so it stays
  below \<open>2 ^ 31\<close> on every reference string a vector of that machine can hold in practice,
  and the model counts in the unbounded integers.
\<close>

type_synonym replay_state = "int list \<times> int"

subsection \<open>FIFO\<close>

text \<open>
  \<^verbatim>\<open>
  if (!FindInContainer<std::deque<int>>(*i, current_pages)) {
      if (current_pages.size() == (size_t) num_frames_) {
          current_pages.pop_front();
      }
      current_pages.push_back(*i);
      page_faults += 1;
  }
  \<close>
\<close>

definition FIFO_step :: "int \<Rightarrow> int \<Rightarrow> replay_state \<Rightarrow> error + replay_state" where
  "FIFO_step num_frames p st =
     (case st of (current_pages, page_faults) \<Rightarrow>
        if \<not> FindInContainer p current_pages
        then (case (if length current_pages = size_t num_frames
                    then pop_front current_pages else Inr current_pages) of
                Inl e \<Rightarrow> Inl e
              | Inr popped \<Rightarrow> Inr (popped @ [p], page_faults + 1))
        else Inr (current_pages, page_faults))"

fun FIFO_loop :: "int \<Rightarrow> int list \<Rightarrow> replay_state \<Rightarrow> error + replay_state" where
  "FIFO_loop num_frames [] st = Inr st"
| "FIFO_loop num_frames (p # rest) st =
     (case FIFO_step num_frames p st of
        Inl e \<Rightarrow> Inl e
      | Inr st' \<Rightarrow> FIFO_loop num_frames rest st')"

definition FIFO_CalculatePageFaults :: "page_replacement \<Rightarrow> error + int" where
  "FIFO_CalculatePageFaults pr =
     (case FIFO_loop (num_frames_m pr) (ref_string_m pr) ([], 0) of
        Inl e \<Rightarrow> Inl e
      | Inr (current_pages, page_faults) \<Rightarrow> Inr page_faults)"

subsection \<open>LRU\<close>

text \<open>
  \<^verbatim>\<open>push_back\<close> on a \<^verbatim>\<open>std::deque\<close> invalidates every iterator of the deque. \<^verbatim>\<open>erase(j)\<close>
  with an iterator \<open>j\<close> that was taken before the \<^verbatim>\<open>push_back\<close> is undefined, whatever the
  deque holds and wherever \<open>j\<close> pointed.
\<close>

definition erase_invalidated :: "int list \<Rightarrow> nat \<Rightarrow> error + int list" where
  "erase_invalidated xs j = Inl InvalidIterator"

text \<open>
  On a hit the source walks the deque up to the requested page, appends a copy of it to
  the back and erases at the iterator of the walk:
  \<^verbatim>\<open>
  for (auto j = current_pages.begin(); j != current_pages.end(); ++j) {
      if (*j == *i) {
          current_pages.push_back(*j);
          current_pages.erase(j);
      }
  }
  \<close>
  The iterator \<open>j\<close> is the one the \<^verbatim>\<open>push_back\<close> has just invalidated, so the walk has no
  defined continuation from the first position that holds the page.
\<close>

function LRU_touch :: "int list \<Rightarrow> int \<Rightarrow> nat \<Rightarrow> error + int list" where
  "LRU_touch current_pages p j =
     (if j = length current_pages then Inr current_pages
      else (case deref current_pages j of
              None \<Rightarrow> Inl OutOfRange
            | Some v \<Rightarrow>
                if v = p
                then erase_invalidated (current_pages @ [v]) j
                else LRU_touch current_pages p (Suc j)))"
  by pat_completeness auto
termination
  by (relation "measure (\<lambda>(current_pages, p, j). length current_pages - j)")
    (auto simp: deref_def split: if_splits)

declare LRU_touch.simps [simp del]

definition LRU_step :: "int \<Rightarrow> int \<Rightarrow> replay_state \<Rightarrow> error + replay_state" where
  "LRU_step num_frames p st =
     (case st of (current_pages, page_faults) \<Rightarrow>
        if \<not> FindInContainer p current_pages
        then (case (if length current_pages = size_t num_frames
                    then pop_front current_pages else Inr current_pages) of
                Inl e \<Rightarrow> Inl e
              | Inr popped \<Rightarrow> Inr (popped @ [p], page_faults + 1))
        else (case LRU_touch current_pages p 0 of
                Inl e \<Rightarrow> Inl e
              | Inr touched \<Rightarrow> Inr (touched, page_faults)))"

fun LRU_loop :: "int \<Rightarrow> int list \<Rightarrow> replay_state \<Rightarrow> error + replay_state" where
  "LRU_loop num_frames [] st = Inr st"
| "LRU_loop num_frames (p # rest) st =
     (case LRU_step num_frames p st of
        Inl e \<Rightarrow> Inl e
      | Inr st' \<Rightarrow> LRU_loop num_frames rest st')"

definition LRU_CalculatePageFaults :: "page_replacement \<Rightarrow> error + int" where
  "LRU_CalculatePageFaults pr =
     (case LRU_loop (num_frames_m pr) (ref_string_m pr) ([], 0) of
        Inl e \<Rightarrow> Inl e
      | Inr (current_pages, page_faults) \<Rightarrow> Inr page_faults)"

subsection \<open>OPT\<close>

text \<open>
  The inner loop over the rest of the reference string, from the current request on:
  it collects, in the order of their first coming request, the pages that are in memory.
\<close>

fun uniqueMemoryStack :: "int list \<Rightarrow> int list \<Rightarrow> int list \<Rightarrow> int list" where
  "uniqueMemoryStack [] current_pages stack = stack"
| "uniqueMemoryStack (q # rest) current_pages stack =
     (if \<not> FindInContainer q current_pages then uniqueMemoryStack rest current_pages stack
      else if \<not> FindInContainer q stack then uniqueMemoryStack rest current_pages (stack @ [q])
      else uniqueMemoryStack rest current_pages stack)"

text \<open>
  The first eviction loop erases the first page equal to \<^verbatim>\<open>*uniqueMemoryStack.rbegin()\<close>;
  the comparison reads the last element of the stack at every page it visits.
\<close>

fun erase_stack_top :: "int list \<Rightarrow> int list \<Rightarrow> error + int list" where
  "erase_stack_top stack [] = Inr []"
| "erase_stack_top stack (x # current_pages) =
     (if stack = [] then Inl OutOfRange
      else if x = last stack then Inr current_pages
      else (case erase_stack_top stack current_pages of
              Inl e \<Rightarrow> Inl e
            | Inr kept \<Rightarrow> Inr (x # kept)))"

text \<open>The second eviction loop erases the first page that is not in the stack.\<close>

fun erase_unused :: "int list \<Rightarrow> int list \<Rightarrow> int list" where
  "erase_unused stack [] = []"
| "erase_unused stack (x # current_pages) =
     (if \<not> FindInContainer x stack then current_pages
      else x # erase_unused stack current_pages)"

text \<open>
  One iteration of the replay loop. The first branch compares the size of the memory
  with \<^verbatim>\<open>num_pages_\<close>, the second with \<^verbatim>\<open>num_frames_\<close>; a request that takes neither
  branch changes nothing.
\<close>

definition OPT_step :: "int \<Rightarrow> int \<Rightarrow> int \<Rightarrow> int list \<Rightarrow> replay_state \<Rightarrow> error + replay_state" where
  "OPT_step num_pages num_frames p rest st =
     (case st of (current_pages, page_faults) \<Rightarrow>
        if length current_pages = size_t num_pages \<and> \<not> FindInContainer p current_pages
        then
          (let stack = uniqueMemoryStack (p # rest) current_pages [] in
           case (if length stack = size_t num_pages
                 then erase_stack_top stack current_pages
                 else Inr (erase_unused stack current_pages)) of
             Inl e \<Rightarrow> Inl e
           | Inr kept \<Rightarrow> Inr (kept @ [p], page_faults + 1))
        else if length current_pages \<noteq> size_t num_frames \<and> \<not> FindInContainer p current_pages
        then Inr (current_pages @ [p], page_faults + 1)
        else Inr (current_pages, page_faults))"

fun OPT_loop :: "int \<Rightarrow> int \<Rightarrow> int list \<Rightarrow> replay_state \<Rightarrow> error + replay_state" where
  "OPT_loop num_pages num_frames [] st = Inr st"
| "OPT_loop num_pages num_frames (p # rest) st =
     (case OPT_step num_pages num_frames p rest st of
        Inl e \<Rightarrow> Inl e
      | Inr st' \<Rightarrow> OPT_loop num_pages num_frames rest st')"

definition OPT_CalculatePageFaults :: "page_replacement \<Rightarrow> error + int" where
  "OPT_CalculatePageFaults pr =
     (case OPT_loop (num_pages_m pr) (num_frames_m pr) (ref_string_m pr) ([], 0) of
        Inl e \<Rightarrow> Inl e
      | Inr (current_pages, page_faults) \<Rightarrow> Inr page_faults)"

subsection \<open>The generator\<close>

text \<open>
  \<^verbatim>\<open>rand()\<close> is the only input from outside: the model takes the sequence \<open>rnd\<close> of the
  values it returns (they are never negative) and counts the calls made so far in \<open>k\<close>.
  The remainder \<^verbatim>\<open>%\<close> of C++ truncates towards zero, and is undefined for the divisor
  zero.
\<close>

definition rand_mod :: "nat \<Rightarrow> int \<Rightarrow> int" where
  "rand_mod r upper_bound = int r smod upper_bound"

text \<open>
  \<^verbatim>\<open>
  while (ref_string[i] == ref_string[i - 1]) {
      ref_string[i] = rand() % upper_bound;
  }
  \<close>
  The loop has no bound: \<open>None\<close> is the run that never leaves it.
\<close>

partial_function (option) redraw ::
  "(nat \<Rightarrow> nat) \<Rightarrow> int \<Rightarrow> nat \<Rightarrow> int list \<Rightarrow> nat \<Rightarrow> (error + int list \<times> nat) option" where
  "redraw rnd upper_bound i ref_string k =
     (if i = 0 \<or> length ref_string \<le> i then Some (Inl OutOfRange)
      else if ref_string ! i = ref_string ! (i - 1)
      then (if upper_bound = 0 then Some (Inl DivisionByZero)
            else redraw rnd upper_bound i (ref_string[i := rand_mod (rnd k) upper_bound]) (Suc k))
      else Some (Inr (ref_string, k)))"

declare redraw.simps [code]

text \<open>\<^verbatim>\<open>for (int i = 1; i < size; ++i)\<close>, one draw and the redraw loop in each round.\<close>

function gen_loop ::
  "(nat \<Rightarrow> nat) \<Rightarrow> int \<Rightarrow> int \<Rightarrow> nat \<Rightarrow> int list \<Rightarrow> nat \<Rightarrow> (error + int list \<times> nat) option" where
  "gen_loop rnd upper_bound sz i ref_string k =
     (if int i < sz
      then (if upper_bound = 0 then Some (Inl DivisionByZero)
            else (case redraw rnd upper_bound i
                         (ref_string[i := rand_mod (rnd k) upper_bound]) (Suc k) of
                    None \<Rightarrow> None
                  | Some (Inl e) \<Rightarrow> Some (Inl e)
                  | Some (Inr (drawn, k')) \<Rightarrow> gen_loop rnd upper_bound sz (Suc i) drawn k'))
      else Some (Inr (ref_string, k)))"
  by pat_completeness auto
termination
  by (relation "measure (\<lambda>(rnd, upper_bound, sz, i, ref_string, k). nat (sz - int i))") auto

declare gen_loop.simps [simp del]

text \<open>
  \<^verbatim>\<open>std::vector<int> ref_string(size)\<close> holds \<open>size\<close> zeros (the model writes \<open>sz\<close>); a negative \<open>size\<close> is cast to a
  length no vector can have, and the constructor throws.
\<close>

definition GenerateRefString ::
  "(nat \<Rightarrow> nat) \<Rightarrow> nat \<Rightarrow> int \<Rightarrow> int \<Rightarrow> (error + int list \<times> nat) option" where
  "GenerateRefString rnd k sz upper_bound =
     (if sz < 0 then Some (Inl LengthError)
      else (let ref_string = replicate (nat sz) 0 in
            if sz = 0 then Some (Inr (ref_string, k))
            else if upper_bound = 0 then Some (Inl DivisionByZero)
            else gen_loop rnd upper_bound sz 1
                   (ref_string[0 := rand_mod (rnd k) upper_bound]) (Suc k)))"

subsection \<open>Demand paging without the queue\<close>

text \<open>
  To compare the fault counts of the policies, a replay is also described by what all
  three have in common. The memory is a set of frames; a request of a page that is in
  memory changes nothing; any other request puts the page in the place of the content of
  one frame and counts one fault. \<open>replay S s n\<close> says that some such replay of the
  requests \<open>s\<close> from the memory \<open>S\<close> counts \<open>n\<close> faults.
\<close>

inductive replay :: "'a set \<Rightarrow> 'a list \<Rightarrow> nat \<Rightarrow> bool" where
  finished: "replay S [] 0"
| hit: "p \<in> S \<Longrightarrow> replay S rest n \<Longrightarrow> replay S (p # rest) n"
| miss: "p \<notin> S \<Longrightarrow> q \<in> S \<Longrightarrow> replay (insert p (S - {q})) rest n \<Longrightarrow> replay S (p # rest) (Suc n)"

text \<open>
  \<open>next_use s x\<close> is the number of requests of \<open>s\<close> before the first request of \<open>x\<close>, and
  the length of \<open>s\<close> when \<open>x\<close> is not requested. A replay that replaces, at every fault, a
  content whose next use is furthest away is a \<open>furthest_replay\<close>.
\<close>

fun next_use :: "'a list \<Rightarrow> 'a \<Rightarrow> nat" where
  "next_use [] x = 0"
| "next_use (y # ys) x = (if x = y then 0 else Suc (next_use ys x))"

inductive furthest_replay :: "'a set \<Rightarrow> 'a list \<Rightarrow> nat \<Rightarrow> bool" where
  f_finished: "furthest_replay S [] 0"
| f_hit: "p \<in> S \<Longrightarrow> furthest_replay S rest n \<Longrightarrow> furthest_replay S (p # rest) n"
| f_miss: "p \<notin> S \<Longrightarrow> q \<in> S \<Longrightarrow> \<forall>x\<in>S. next_use rest x \<le> next_use rest q \<Longrightarrow>
     furthest_replay (insert p (S - {q})) rest n \<Longrightarrow> furthest_replay S (p # rest) (Suc n)"

text \<open>
  The memory of a policy with \<open>c\<close> frames, as a set: the pages of \<open>current_pages\<close>, and
  one empty frame \<open>Inl i\<close> for every place that is still free. Loading a page into a free
  place replaces the content of an empty frame.
\<close>

definition frames :: "nat \<Rightarrow> int list \<Rightarrow> (nat + int) set" where
  "frames c current_pages = Inr ` set current_pages \<union> Inl ` {length current_pages..<c}"

section \<open>The sanitizer: results\<close>

lemma CleanRefString_empty: "CleanRefString [] = Inr []"
  by (simp add: CleanRefString_def)

text \<open>
  The first iteration reads the position \<^verbatim>\<open>end()\<close>, which holds no element: every
  non-empty sequence takes the error branch.
\<close>

lemma CleanRefString_nonempty: "xs \<noteq> [] \<Longrightarrow> CleanRefString xs = Inl OutOfRange"
  by (cases xs) (simp_all add: CleanRefString_def deref_def)

text \<open>So the constructor of a policy object succeeds on the empty reference string only.\<close>

lemma AbstractPageReplacement_empty:
  "AbstractPageReplacement [] num_pages num_frames
     = Inr \<lparr>ref_string_m = [], num_pages_m = num_pages, num_frames_m = num_frames\<rparr>"
  by (simp add: AbstractPageReplacement_def CleanRefString_empty)

lemma AbstractPageReplacement_nonempty:
  "ref_string \<noteq> [] \<Longrightarrow> AbstractPageReplacement ref_string num_pages num_frames = Inl OutOfRange"
  by (simp add: AbstractPageReplacement_def CleanRefString_nonempty)

text \<open>
  Entered one position lower, at the last element, the same loop is the removal of
  adjacent duplicates: it keeps the first element of every run.
\<close>

lemma clean_loop_remdups_adj_aux:
  "k < length xs \<Longrightarrow> remdups_adj (drop k xs) = drop k xs \<Longrightarrow>
   clean_loop xs k = Inr (remdups_adj xs)"
proof (induction k arbitrary: xs)
  case 0
  then show ?case by simp
next
  case (Suc k)
  from Suc.prems(1) have k: "k < length xs" by simp
  obtain a b zs where dk: "drop k xs = a # b # zs"
    using Suc.prems(1)
    by (metis Cons_nth_drop_Suc k)
  have xs: "xs = take k xs @ a # b # zs"
    by (metis append_take_drop_id dk)
  have ds: "drop (Suc k) xs = b # zs"
    by (metis dk drop_Suc list.sel(3) tl_drop)
  have a: "xs ! k = a" and b: "xs ! Suc k = b"
    using dk ds k Suc.prems(1) by (metis nth_via_drop)+
  have clean: "remdups_adj (b # zs) = b # zs"
    using Suc.prems(2) ds by simp
  show ?case
  proof (cases "a = b")
    case True
    let ?ys = "take (Suc k) xs @ drop (Suc (Suc k)) xs"
    have ys: "?ys = take k xs @ a # zs"
      by (metis (no_types, lifting) Cons_eq_appendI a append_assoc append_self_conv2 drop_Suc ds k list.sel(3)
          take_Suc_conv_app_nth tl_drop)
    have "drop k ?ys = a # zs"
      using ys k by (metis append_eq_conv_conj length_take min.absorb2 less_imp_le)
    moreover have "remdups_adj (a # zs) = a # zs"
      using clean True by simp
    ultimately have "clean_loop ?ys k = Inr (remdups_adj ?ys)"
      using Suc.IH [of ?ys] k Suc.prems(1) by simp
    moreover have "remdups_adj ?ys = remdups_adj xs"
    proof -
      have "remdups_adj (take k xs @ a # a # zs) = remdups_adj (take k xs @ a # zs)"
        by (metis remdups_adj.simps(3) remdups_adj_append)
      then show ?thesis using xs ys True by metis
    qed
    ultimately show ?thesis
      using True a b Suc.prems(1) by (simp add: deref_def erase_def)
  next
    case False
    have "remdups_adj (drop k xs) = drop k xs"
      using dk clean False by simp
    then have "clean_loop xs k = Inr (remdups_adj xs)"
      using Suc.IH [of xs] k by simp
    then show ?thesis
      using False a b Suc.prems(1) k by (simp add: deref_def)
  qed
qed

lemma clean_loop_from_last:
  "xs \<noteq> [] \<Longrightarrow> clean_loop xs (length xs - 1) = Inr (remdups_adj xs)"
proof -
  assume ne: "xs \<noteq> []"
  then have "drop (length xs - 1) xs = [last xs]"
    by (metis append_butlast_last_id append_eq_conv_conj length_butlast)
  then show ?thesis
    using ne clean_loop_remdups_adj_aux [of "length xs - 1" xs] by simp
qed

text \<open>
  Claim C10 says that every element access of the backward traversal is inside the
  sequence, so that the error branch of the sanitizer is never taken, also for a
  non-empty input, where the traversal starts at the end position. The traversal reads
  the end position first: on the one-element sequence \<open>[7]\<close> the sanitizer takes the error
  branch.
\<close>

theorem CleanRefString_reads_end: "CleanRefString [7] = Inl OutOfRange"
  by (simp add: CleanRefString_def deref_def)

text \<open>
  Claim C4 says that for every input the sanitizer returns the input without its adjacent
  duplicates, the first element of every run kept and the order preserved, and the empty
  output for the empty input. The empty input does give the empty output
  (\<open>CleanRefString_empty\<close>), and the loop entered at the last element computes exactly that
  sequence (\<open>clean_loop_from_last\<close>); entered at the end position, as the source enters
  it, the sanitizer returns no sequence for \<open>[1, 2, 2, 3]\<close>.
\<close>

theorem CleanRefString_run_not_removed:
  "CleanRefString [1, 2, 2, 3] = Inl OutOfRange
   \<and> clean_loop [1, 2, 2, 3] (length [1, 2, 2, 3 :: int] - 1) = Inr [1, 2, 3]"
  by (simp add: CleanRefString_def deref_def erase_def)

text \<open>
  Claim C5 says that the sanitizer leaves an already sanitized sequence unchanged, so
  that sanitizing twice is sanitizing once. The sequence \<open>[1, 2]\<close> has no adjacent
  duplicates, and the sanitizer does not return it.
\<close>

theorem CleanRefString_sanitized_not_kept:
  "remdups_adj [1, 2 :: int] = [1, 2] \<and> CleanRefString [1, 2] \<noteq> Inr [1, 2]"
  by (simp add: CleanRefString_def deref_def)

section \<open>The replays: results\<close>

lemma FindInContainer_set [simp]: "FindInContainer needle haystack \<longleftrightarrow> needle \<in> set haystack"
  by (induction haystack) auto

text \<open>A bound that is not negative and that an \<^verbatim>\<open>int\<close> can hold is not changed by the cast.\<close>

lemma size_t_int: "0 \<le> n \<Longrightarrow> n < 2 ^ 31 \<Longrightarrow> size_t n = nat n"
  by (simp add: size_t_def)

lemma size_t_pos: "1 \<le> n \<Longrightarrow> n < 2 ^ 31 \<Longrightarrow> 0 < size_t n"
  by (simp add: size_t_def)

text \<open>
  Claim C8: for the empty reference string and any capacity (and any number of pages),
  the replay of each of the three policies returns the fault count 0.
\<close>

theorem empty_ref_string_no_faults:
  "FIFO_CalculatePageFaults \<lparr>ref_string_m = [], num_pages_m = np, num_frames_m = nf\<rparr> = Inr 0
   \<and> LRU_CalculatePageFaults \<lparr>ref_string_m = [], num_pages_m = np, num_frames_m = nf\<rparr> = Inr 0
   \<and> OPT_CalculatePageFaults \<lparr>ref_string_m = [], num_pages_m = np, num_frames_m = nf\<rparr> = Inr 0"
  by (simp add: FIFO_CalculatePageFaults_def LRU_CalculatePageFaults_def
      OPT_CalculatePageFaults_def)

subsection \<open>FIFO: one step, and the size of the memory\<close>

lemma FIFO_step_miss_full:
  "p \<notin> set (q # cp) \<Longrightarrow> length (q # cp) = size_t nf \<Longrightarrow>
   FIFO_step nf p (q # cp, f) = Inr (cp @ [p], f + 1)"
  by (simp add: FIFO_step_def pop_front_def)

lemma FIFO_step_miss_room:
  "p \<notin> set cp \<Longrightarrow> length cp \<noteq> size_t nf \<Longrightarrow>
   FIFO_step nf p (cp, f) = Inr (cp @ [p], f + 1)"
  by (simp add: FIFO_step_def)

lemma FIFO_step_hit: "p \<in> set cp \<Longrightarrow> FIFO_step nf p (cp, f) = Inr (cp, f)"
  by (simp add: FIFO_step_def)

lemma FIFO_step_capacity:
  assumes "0 < size_t nf" "length cp \<le> size_t nf"
  shows "\<exists>cp' f'. FIFO_step nf p (cp, f) = Inr (cp', f') \<and> length cp' \<le> size_t nf"
proof (cases "p \<in> set cp")
  case True
  then show ?thesis using assms by (simp add: FIFO_step_hit)
next
  case False
  show ?thesis
  proof (cases "length cp = size_t nf")
    case True
    then obtain q cp0 where "cp = q # cp0" using assms(1) by (cases cp) auto
    then show ?thesis
      using True False FIFO_step_miss_full [of p q cp0 nf f] by auto
  next
    case False
    then show ?thesis
      using \<open>p \<notin> set cp\<close> assms FIFO_step_miss_room [of p cp nf f] by auto
  qed
qed

lemma FIFO_loop_capacity:
  "0 < size_t nf \<Longrightarrow> length (fst st) \<le> size_t nf \<Longrightarrow>
   \<exists>st'. FIFO_loop nf s st = Inr st' \<and> length (fst st') \<le> size_t nf"
proof (induction s arbitrary: st)
  case Nil
  then show ?case by simp
next
  case (Cons p s)
  obtain cp f where st: "st = (cp, f)" by (cases st)
  obtain cp' f' where "FIFO_step nf p (cp, f) = Inr (cp', f')" "length cp' \<le> size_t nf"
    using FIFO_step_capacity [of nf cp p f] Cons.prems st by auto
  then show ?case
    using Cons.IH [of "(cp', f')"] Cons.prems(1) st by simp
qed

subsection \<open>LRU: the walk over the deque on a hit\<close>

text \<open>The walk changes nothing where the requested page does not occur.\<close>

lemma LRU_touch_absent:
  "j \<le> length cp \<Longrightarrow> p \<notin> set (drop j cp) \<Longrightarrow> LRU_touch cp p j = Inr cp"
proof (induction "length cp - j" arbitrary: j)
  case 0
  then show ?case by (simp add: LRU_touch.simps)
next
  case (Suc d)
  then have j: "j < length cp" by simp
  then have "cp ! j \<in> set (drop j cp)"
    by (metis Cons_nth_drop_Suc list.set_intros(1))
  then have ne: "cp ! j \<noteq> p" using Suc.prems(2) by auto
  have "set (drop (Suc j) cp) \<subseteq> set (drop j cp)"
    by (simp add: set_drop_subset_set_drop)
  then have "p \<notin> set (drop (Suc j) cp)"
    using Suc.prems(2) by auto
  moreover have "d = length cp - Suc j" using Suc.hyps(2) by simp
  ultimately have "LRU_touch cp p (Suc j) = Inr cp"
    using Suc.hyps(1) j by simp
  then show ?case
    using j ne by (subst LRU_touch.simps) (simp add: deref_def)
qed

text \<open>
  Where the page occurs, the walk reaches it and erases through the invalidated
  iterator.
\<close>

lemma LRU_touch_present:
  "j \<le> length cp \<Longrightarrow> p \<in> set (drop j cp) \<Longrightarrow> LRU_touch cp p j = Inl InvalidIterator"
proof (induction "length cp - j" arbitrary: j)
  case 0
  then show ?case by simp
next
  case (Suc d)
  then have j: "j < length cp" by simp
  show ?case
  proof (cases "cp ! j = p")
    case True
    then show ?thesis
      using j by (subst LRU_touch.simps) (simp add: deref_def erase_invalidated_def)
  next
    case False
    have "drop j cp = cp ! j # drop (Suc j) cp"
      using j by (simp add: Cons_nth_drop_Suc)
    then have "p \<in> set (drop (Suc j) cp)"
      using Suc.prems(2) False by auto
    moreover have "d = length cp - Suc j" using Suc.hyps(2) by simp
    ultimately have "LRU_touch cp p (Suc j) = Inl InvalidIterator"
      using Suc.hyps(1) j by simp
    then show ?thesis
      using j False by (subst LRU_touch.simps) (simp add: deref_def)
  qed
qed

subsection \<open>LRU: one step\<close>

text \<open>Every hit of LRU takes the error branch.\<close>

lemma LRU_step_hit:
  "p \<in> set cp \<Longrightarrow> LRU_step nf p (cp, f) = Inl InvalidIterator"
  by (simp add: LRU_step_def LRU_touch_present)

lemma LRU_step_miss_full:
  "p \<notin> set (q # cp) \<Longrightarrow> length (q # cp) = size_t nf \<Longrightarrow>
   LRU_step nf p (q # cp, f) = Inr (cp @ [p], f + 1)"
  by (simp add: LRU_step_def pop_front_def)

lemma LRU_step_miss_room:
  "p \<notin> set cp \<Longrightarrow> length cp \<noteq> size_t nf \<Longrightarrow>
   LRU_step nf p (cp, f) = Inr (cp @ [p], f + 1)"
  by (simp add: LRU_step_def)

lemma LRU_step_returns_on_miss_only:
  "LRU_step nf p (cp, f) = Inr st \<Longrightarrow> p \<notin> set cp"
  using LRU_step_hit [of p cp nf f] by auto

lemma LRU_step_distinct:
  assumes "distinct cp" "LRU_step nf p (cp, f) = Inr (cp', f')"
  shows "distinct cp'"
proof -
  have "p \<notin> set cp" using assms(2) by (rule LRU_step_returns_on_miss_only)
  then show ?thesis
    using assms
    by (cases cp) (auto simp: LRU_step_def pop_front_def split: if_splits)
qed

lemma LRU_loop_distinct:
  "distinct (fst st) \<Longrightarrow> LRU_loop nf s st = Inr st' \<Longrightarrow> distinct (fst st')"
proof (induction s arbitrary: st)
  case Nil
  then show ?case by simp
next
  case (Cons p s)
  obtain cp f where st: "st = (cp, f)" by (cases st)
  from Cons.prems(2) obtain st1 where s1: "LRU_step nf p st = Inr st1"
    and l: "LRU_loop nf s st1 = Inr st'"
    by (auto split: sum.splits)
  obtain cp1 f1 where st1: "st1 = (cp1, f1)" by (cases st1)
  have "distinct cp1"
    using LRU_step_distinct [of cp nf p f cp1 f1] Cons.prems(1) s1 st st1 by simp
  then show ?case using Cons.IH [of st1] l st1 by simp
qed

subsection \<open>LRU: the size of the memory\<close>

lemma LRU_step_capacity:
  assumes "0 < size_t nf" "length cp \<le> size_t nf" "LRU_step nf p (cp, f) = Inr (cp', f')"
  shows "length cp' \<le> size_t nf"
proof -
  have p: "p \<notin> set cp" using assms(3) by (rule LRU_step_returns_on_miss_only)
  show ?thesis
  proof (cases "length cp = size_t nf")
    case True
    then obtain q cp0 where "cp = q # cp0" using assms(1) by (cases cp) auto
    then show ?thesis
      using True p assms(3) LRU_step_miss_full [of p q cp0 nf f] by auto
  next
    case False
    then show ?thesis
      using p assms LRU_step_miss_room [of p cp nf f] by auto
  qed
qed

lemma LRU_loop_capacity:
  "0 < size_t nf \<Longrightarrow> length (fst st) \<le> size_t nf \<Longrightarrow> LRU_loop nf s st = Inr st' \<Longrightarrow>
   length (fst st') \<le> size_t nf"
proof (induction s arbitrary: st)
  case Nil
  then show ?case by simp
next
  case (Cons p s)
  obtain cp f where st: "st = (cp, f)" by (cases st)
  from Cons.prems(3) obtain st1 where s1: "LRU_step nf p st = Inr st1"
    and l: "LRU_loop nf s st1 = Inr st'"
    by (auto split: sum.splits)
  obtain cp1 f1 where st1: "st1 = (cp1, f1)" by (cases st1)
  have "length cp1 \<le> size_t nf"
    using LRU_step_capacity [of nf cp p f cp1 f1] Cons.prems(1,2) s1 st st1 by simp
  then show ?case using Cons.IH [of st1] Cons.prems(1) l st1 by simp
qed

subsection \<open>LRU: the queue is ordered by the last reference\<close>

text \<open>
  \<open>remdups\<close> keeps the last occurrence of every element: \<open>remdups pre\<close> lists the pages
  requested in \<open>pre\<close> in the order of their last request. When the replay of the requests
  \<open>pre\<close> returns, the queue of LRU holds the last \<^verbatim>\<open>num_frames_\<close> pages of that list, so
  its head is the resident page whose last request is the oldest.
\<close>

lemma LRU_loop_snoc:
  "LRU_loop nf (s @ [p]) st =
     (case LRU_loop nf s st of Inl e \<Rightarrow> Inl e | Inr st' \<Rightarrow> LRU_step nf p st')"
  by (induction s arbitrary: st) (auto split: sum.splits)

lemma remdups_snoc: "remdups (s @ [p]) = filter (\<lambda>x. x \<noteq> p) (remdups s) @ [p]"
  by (induction s) auto

lemma filter_neq_absent: "p \<notin> set xs \<Longrightarrow> filter (\<lambda>x. x \<noteq> p) xs = xs"
  by (induction xs) auto

lemma filter_neq_distinct: "distinct xs \<Longrightarrow> filter (\<lambda>x. x \<noteq> p) xs = remove1 p xs"
  by (induction xs) (auto simp: filter_neq_absent)

lemma length_remove1_present: "p \<in> set xs \<Longrightarrow> Suc (length (remove1 p xs)) = length xs"
  by (simp add: length_remove1) (metis length_pos_if_in_set Suc_pred)

lemma drop_exact: "length A = n \<Longrightarrow> drop n (A @ X) = X"
  by simp

lemma recent_split:
  obtains A B where "R = A @ B" "B = drop (length R - c) R" "length A = length R - c"
proof
  show "R = take (length R - c) R @ drop (length R - c) R" by simp
  show "drop (length R - c) R = drop (length R - c) R" by simp
  show "length (take (length R - c) R) = length R - c" by simp
qed

lemma recent_miss_full:
  assumes "distinct R" "p \<notin> set (drop (length R - c) R)" "length (drop (length R - c) R) = c"
    "0 < c"
  shows "drop (length (filter (\<lambda>x. x \<noteq> p) R @ [p]) - c) (filter (\<lambda>x. x \<noteq> p) R @ [p])
         = tl (drop (length R - c) R) @ [p]"
proof -
  obtain A B where R: "R = A @ B" and B: "B = drop (length R - c) R"
    and lA: "length A = length R - c"
    by (rule recent_split)
  have pB: "p \<notin> set B" and lB: "length B = c" using assms(2,3) B by simp_all
  have lR: "length R = length A + c" using R lB by simp
  have d: "distinct A" "distinct B"
    using assms(1) R by auto
  obtain b B' where B': "B = b # B'" using lB assms(4) by (cases B) auto
  have f: "filter (\<lambda>x. x \<noteq> p) R = remove1 p A @ B"
    using pB d(1) R by (simp add: filter_neq_absent filter_neq_distinct)
  have "drop (length (remove1 p A @ B @ [p]) - c) (remove1 p A @ B @ [p]) = B' @ [p]"
  proof (cases "p \<in> set A")
    case True
    then have "Suc (length (remove1 p A)) = length A" by (rule length_remove1_present)
    then have "length (remove1 p A @ B @ [p]) - c = length (remove1 p A @ [b])"
      using lB by simp
    moreover have "remove1 p A @ B @ [p] = (remove1 p A @ [b]) @ B' @ [p]"
      using B' by simp
    ultimately show ?thesis by (simp only: drop_exact)
  next
    case False
    then have "remove1 p A = A" by (simp add: remove1_idem)
    moreover have "length (A @ B @ [p]) - c = length (A @ [b])"
      using lB by simp
    moreover have "A @ B @ [p] = (A @ [b]) @ B' @ [p]"
      using B' by simp
    ultimately show ?thesis by (simp only: drop_exact)
  qed
  then have "drop (length ((remove1 p A @ B) @ [p]) - c) ((remove1 p A @ B) @ [p]) = tl B @ [p]"
    using B' by (simp only: append_assoc list.sel)
  then show ?thesis by (simp only: f B [symmetric])
qed

lemma recent_miss_room:
  assumes "distinct R" "p \<notin> set (drop (length R - c) R)" "length (drop (length R - c) R) \<noteq> c"
  shows "drop (length (filter (\<lambda>x. x \<noteq> p) R @ [p]) - c) (filter (\<lambda>x. x \<noteq> p) R @ [p])
         = drop (length R - c) R @ [p]"
proof -
  have c: "length R < c" using assms(3) by auto
  then have "p \<notin> set R" using assms(2) by simp
  then show ?thesis using c by (simp add: filter_neq_absent)
qed

lemma LRU_loop_recency_aux:
  assumes "0 < size_t nf"
  shows "LRU_loop nf pre ([], 0) = Inr (cp, f) \<Longrightarrow>
         cp = drop (length (remdups pre) - size_t nf) (remdups pre)"
proof (induction pre arbitrary: cp f rule: rev_induct)
  case Nil
  then show ?case by simp
next
  case (snoc p pre)
  let ?R = "remdups pre" and ?c = "size_t nf"
  from snoc.prems obtain cp0 f0 where l: "LRU_loop nf pre ([], 0) = Inr (cp0, f0)"
    and s: "LRU_step nf p (cp0, f0) = Inr (cp, f)"
    by (auto simp: LRU_loop_snoc split: sum.splits)
  have cp0: "cp0 = drop (length ?R - ?c) ?R" using snoc.IH l by simp
  have d: "distinct cp0" using LRU_loop_distinct [of "([], 0)" nf pre] l by simp
  have R': "remdups (pre @ [p]) = filter (\<lambda>x. x \<noteq> p) ?R @ [p]" by (rule remdups_snoc)
  show ?case
  proof (cases "p \<in> set cp0")
    case True
    then have False
      using s LRU_step_hit [of p cp0 nf f0] by simp
    then show ?thesis ..
  next
    case False
    show ?thesis
    proof (cases "length cp0 = ?c")
      case True
      then obtain q cp1 where q: "cp0 = q # cp1" using assms by (cases cp0) auto
      then have "cp = tl cp0 @ [p]"
        using s False True LRU_step_miss_full [of p q cp1 nf f0] by simp
      then show ?thesis
        using False True cp0 assms recent_miss_full [of ?R p ?c] R' by simp
    next
      case ne: False
      then have "cp = cp0 @ [p]"
        using s False LRU_step_miss_room [of p cp0 nf f0] by simp
      then show ?thesis
        using False ne cp0 recent_miss_room [of ?R p ?c] R' by simp
    qed
  qed
qed

lemma LRU_loop_recency:
  assumes "LRU_loop nf pre ([], 0) = Inr (cp, f)"
  shows "cp = drop (length (remdups pre) - size_t nf) (remdups pre)"
proof (cases "0 < size_t nf")
  case True
  then show ?thesis using assms by (rule LRU_loop_recency_aux)
next
  case False
  then have "pre = []"
    using assms by (cases pre) (auto simp: LRU_step_def pop_front_def)
  then show ?thesis using assms by simp
qed

subsection \<open>LRU: a hit\<close>

lemma LRU_miss_on_full_memory:
  assumes "LRU_loop num_frames pre ([], 0) = Inr (current_pages, page_faults)"
    and "p \<notin> set current_pages" "length current_pages = size_t num_frames"
    and "1 \<le> num_frames" "num_frames < 2 ^ 31"
  shows "current_pages \<noteq> []
         \<and> current_pages = drop (length (remdups pre) - size_t num_frames) (remdups pre)
         \<and> LRU_step num_frames p (current_pages, page_faults)
              = Inr (tl current_pages @ [p], page_faults + 1)"
proof -
  have "current_pages \<noteq> []"
    using assms(3,4,5) size_t_pos [of num_frames] by auto
  then obtain q cp where "current_pages = q # cp" by (cases current_pages) auto
  then have "LRU_step num_frames p (current_pages, page_faults)
      = Inr (tl current_pages @ [p], page_faults + 1)"
    using assms(2,3) LRU_step_miss_full [of p q cp num_frames page_faults] by simp
  moreover have "current_pages = drop (length (remdups pre) - size_t num_frames) (remdups pre)"
    using assms(1) by (rule LRU_loop_recency)
  ultimately show ?thesis using \<open>current_pages \<noteq> []\<close> by simp
qed

text \<open>
  Claim C9 says that in every step of an LRU replay a hit moves the requested page to the
  tail of the queue and changes neither the set of resident pages nor the fault count,
  and that a miss on a full memory removes the head, the page requested longest ago,
  before the new page is appended. The miss does so (\<open>LRU_miss_on_full_memory\<close>). The
  hit appends the copy and then erases through the iterator that the append has
  invalidated (\<open>LRU_step_hit\<close>): with 2 frames, the replay of \<open>[1, 2]\<close> fills the queue,
  the request of page 1 that follows is a hit, and neither that step nor the replay of
  \<open>[1, 2, 1]\<close> has a defined result.
\<close>

theorem LRU_hit_erases_through_invalid_iterator:
  "LRU_loop 2 [1, 2] ([], 0) = Inr ([1, 2], 2)
   \<and> LRU_step 2 1 ([1, 2], 2) = Inl InvalidIterator
   \<and> LRU_CalculatePageFaults \<lparr>ref_string_m = [1, 2, 1], num_pages_m = np, num_frames_m = 2\<rparr>
       = Inl InvalidIterator"
  by (simp add: LRU_CalculatePageFaults_def LRU_step_def LRU_touch.simps size_t_def
      deref_def erase_invalidated_def)

subsection \<open>OPT: every replay returns, and the size of the memory\<close>

lemma uniqueMemoryStack_set:
  "set (uniqueMemoryStack rest cp st) = set st \<union> (set rest \<inter> set cp)"
  by (induction rest cp st rule: uniqueMemoryStack.induct) auto

lemma uniqueMemoryStack_distinct:
  "distinct st \<Longrightarrow> distinct (uniqueMemoryStack rest cp st)"
  by (induction rest cp st rule: uniqueMemoryStack.induct) auto

lemma erase_stack_top_remove1:
  "st \<noteq> [] \<Longrightarrow> erase_stack_top st cp = Inr (remove1 (last st) cp)"
  by (induction cp) auto

lemma erase_unused_all_used: "set cp \<subseteq> set st \<Longrightarrow> erase_unused st cp = cp"
  by (induction cp) auto

lemma erase_unused_remove1:
  "\<not> set cp \<subseteq> set st \<Longrightarrow> \<exists>y\<in>set cp. y \<notin> set st \<and> erase_unused st cp = remove1 y cp"
proof (induction cp)
  case Nil
  then show ?case by simp
next
  case (Cons a cp)
  show ?case
  proof (cases "a \<in> set st")
    case False
    then show ?thesis by auto
  next
    case True
    then have "\<not> set cp \<subseteq> set st" using Cons.prems by auto
    then obtain y where y: "y \<in> set cp" "y \<notin> set st" "erase_unused st cp = remove1 y cp"
      using Cons.IH by blast
    then have "y \<noteq> a" using True by auto
    then have "erase_unused st (a # cp) = remove1 y (a # cp)"
      using True y(3) by simp
    then show ?thesis using y by auto
  qed
qed

lemma uniqueMemoryStack_empty_memory: "uniqueMemoryStack rest [] st = st"
  by (induction rest) auto

lemma proper_subset_of_memory:
  assumes "distinct st" "distinct cp" "set st \<subseteq> set cp" "length st \<noteq> length cp"
  shows "\<not> set cp \<subseteq> set st"
proof
  assume "set cp \<subseteq> set st"
  then have "set st = set cp" using assms(3) by auto
  then have "length st = length cp"
    using assms(1,2) by (metis distinct_card)
  then show False using assms(4) by simp
qed

lemma OPT_step_returns:
  assumes "distinct cp"
  shows "\<exists>cp' f'. OPT_step np nf p rest (cp, f) = Inr (cp', f') \<and> distinct cp'
          \<and> (0 < size_t nf \<and> length cp \<le> size_t nf \<longrightarrow> length cp' \<le> size_t nf)"
proof (cases "p \<in> set cp")
  case True
  then show ?thesis using assms by (simp add: OPT_step_def)
next
  case False
  let ?st = "uniqueMemoryStack (p # rest) cp []"
  have st: "distinct ?st" "set ?st \<subseteq> set cp"
    by (simp_all add: uniqueMemoryStack_distinct uniqueMemoryStack_set)
  show ?thesis
  proof (cases "length cp = size_t np")
    case full: True
    show ?thesis
    proof (cases "length ?st = size_t np")
      case True
      show ?thesis
      proof (cases "?st = []")
        case True
        then have "cp = []" using \<open>length ?st = size_t np\<close> full by simp
        then show ?thesis
          using False full by (auto simp: OPT_step_def uniqueMemoryStack_empty_memory)
      next
        case ne: False
        then have "last ?st \<in> set cp" using st(2) last_in_set by blast
        then have "length (remove1 (last ?st) cp @ [p]) = length cp"
          by (simp add: length_remove1) (metis length_pos_if_in_set Suc_pred)
        moreover have "distinct (remove1 (last ?st) cp @ [p])"
          using assms False by (auto dest: notin_set_remove1)
        moreover have "OPT_step np nf p rest (cp, f) = Inr (remove1 (last ?st) cp @ [p], f + 1)"
          using False full True ne erase_stack_top_remove1 [of ?st cp]
          by (simp add: OPT_step_def Let_def)
        ultimately show ?thesis by auto
      qed
    next
      case ns: False
      then have "\<not> set cp \<subseteq> set ?st"
        using proper_subset_of_memory [OF st(1) assms st(2)] full by simp
      then obtain y where y: "y \<in> set cp" "erase_unused ?st cp = remove1 y cp"
        using erase_unused_remove1 [of cp ?st] by blast
      then have "length (remove1 y cp @ [p]) = length cp"
        by (simp add: length_remove1) (metis length_pos_if_in_set Suc_pred)
      moreover have "distinct (remove1 y cp @ [p])"
        using assms False by (auto dest: notin_set_remove1)
      moreover have "OPT_step np nf p rest (cp, f) = Inr (remove1 y cp @ [p], f + 1)"
        using False full ns y(2) by (simp add: OPT_step_def Let_def)
      ultimately show ?thesis by auto
    qed
  next
    case nfull: False
    then show ?thesis
      using False assms by (auto simp: OPT_step_def)
  qed
qed

lemma OPT_loop_returns:
  "distinct (fst st) \<Longrightarrow>
   \<exists>st'. OPT_loop np nf s st = Inr st' \<and> distinct (fst st')
     \<and> (0 < size_t nf \<and> length (fst st) \<le> size_t nf \<longrightarrow> length (fst st') \<le> size_t nf)"
proof (induction s arbitrary: st)
  case Nil
  then show ?case by simp
next
  case (Cons p s)
  obtain cp f where st: "st = (cp, f)" by (cases st)
  obtain cp' f' where 1: "OPT_step np nf p s (cp, f) = Inr (cp', f')" "distinct cp'"
    "0 < size_t nf \<and> length cp \<le> size_t nf \<longrightarrow> length cp' \<le> size_t nf"
    using OPT_step_returns [of cp np nf p s f] Cons.prems st by auto
  then show ?case
    using Cons.IH [of "(cp', f')"] st by auto
qed

section \<open>OPT against FIFO and LRU\<close>

subsection \<open>Replacing the furthest content gives the fewest faults\<close>

inductive_cases replay_NilE: "replay S [] n"
inductive_cases replay_ConsE: "replay S (p # rest) n"
inductive_cases furthest_ConsE: "furthest_replay S (p # rest) n"

lemma replay_Cons_cases:
  "replay S (r # s) m \<Longrightarrow>
   (r \<in> S \<and> replay S s m)
   \<or> (\<exists>q m0. m = Suc m0 \<and> r \<notin> S \<and> q \<in> S \<and> replay (insert r (S - {q})) s m0)"
  by (erule replay_ConsE) blast+

text \<open>
  Two memories that differ in the content of one frame: a replay from one of them can be
  followed from the other at the cost of at most one more fault.
\<close>

lemma swap_one_page:
  "replay (insert b R) s m \<Longrightarrow> a \<notin> R \<Longrightarrow> b \<notin> R \<Longrightarrow> \<exists>m'\<le>Suc m. replay (insert a R) s m'"
proof (induction s arbitrary: R a b m)
  case Nil
  then have "m = 0" by (auto elim: replay_NilE)
  then show ?case by (auto intro: replay.finished)
next
  case (Cons r s)
  show ?case
  proof (cases "a = b")
    case True
    then have "replay (insert a R) (r # s) m" using Cons.prems(1) by simp
    then show ?thesis by (intro exI [of _ m]) simp
  next
    case ab: False
    from replay_Cons_cases [OF Cons.prems(1)] consider
      (hit) "r \<in> insert b R" "replay (insert b R) s m"
      | (miss) q m0 where "m = Suc m0" "r \<notin> insert b R" "q \<in> insert b R"
          "replay (insert r (insert b R - {q})) s m0"
      by blast
    then show ?thesis
    proof cases
      case hit
      note h = hit
      show ?thesis
      proof (cases "r = b")
        case True
        have "r \<notin> insert a R" using True ab Cons.prems(3) by auto
        moreover have "a \<in> insert a R" by simp
        moreover have "insert r (insert a R - {a}) = insert b R"
          using True Cons.prems(2) by auto
        ultimately have "replay (insert a R) (r # s) (Suc m)"
          using h(2) replay.miss [of r "insert a R" a s m] by simp
        then show ?thesis by (intro exI [of _ "Suc m"]) simp
      next
        case False
        then have "r \<in> insert a R" using h(1) by auto
        moreover obtain m' where "m' \<le> Suc m" "replay (insert a R) s m'"
          using Cons.IH [OF h(2) Cons.prems(2,3)] by auto
        ultimately show ?thesis by (intro exI [of _ m']) (simp add: replay.hit)
      qed
    next
      case miss
      note h = miss
      have rb: "r \<noteq> b" "r \<notin> R" using h(2) by auto
      show ?thesis
      proof (cases "r = a")
        case ra: True
        show ?thesis
        proof (cases "q = b")
          case True
          then have "insert r (insert b R - {q}) = insert a R"
            using ra Cons.prems(3) by auto
          then have "replay (insert a R) (r # s) m0"
            using h(4) ra by (auto intro: replay.hit)
          then show ?thesis using h(1) by (intro exI [of _ m0]) simp
        next
          case False
          then have qR: "q \<in> R" using h(3) by auto
          let ?R = "insert a (R - {q})"
          have "insert r (insert b R - {q}) = insert b ?R"
            using ra False by auto
          then have "replay (insert b ?R) s m0" using h(4) by simp
          moreover have "q \<notin> ?R" "b \<notin> ?R"
            using qR Cons.prems(2,3) ab by auto
          ultimately obtain m' where m': "m' \<le> Suc m0" "replay (insert q ?R) s m'"
            using Cons.IH [of b ?R m0 q] by auto
          have "insert q ?R = insert a R" using qR by auto
          then have "replay (insert a R) (r # s) m'"
            using m'(2) ra by (auto intro: replay.hit)
          then show ?thesis using m'(1) h(1) by (intro exI [of _ m']) simp
        qed
      next
        case ra: False
        then have rS: "r \<notin> insert a R" using rb by auto
        show ?thesis
        proof (cases "q = b")
          case True
          then have "insert r (insert b R - {q}) = insert r (insert a R - {a})"
            using Cons.prems(2,3) by auto
          then have "replay (insert a R) (r # s) (Suc m0)"
            using h(4) rS replay.miss [of r "insert a R" a s m0] by simp
          then show ?thesis using h(1) by (intro exI [of _ "Suc m0"]) simp
        next
          case False
          then have qR: "q \<in> R" using h(3) by auto
          let ?R = "insert r (R - {q})"
          have "insert r (insert b R - {q}) = insert b ?R"
            using False by auto
          then have "replay (insert b ?R) s m0" using h(4) by simp
          moreover have "a \<notin> ?R" "b \<notin> ?R"
            using Cons.prems(2,3) ra rb by auto
          ultimately obtain m' where m': "m' \<le> Suc m0" "replay (insert a ?R) s m'"
            using Cons.IH [of b ?R m0 a] by auto
          have "insert r (insert a R - {q}) = insert a ?R"
            using qR Cons.prems(2) by auto
          moreover have "q \<in> insert a R" using qR by simp
          ultimately have "replay (insert a R) (r # s) (Suc m')"
            using m'(2) rS replay.miss [of r "insert a R" q s m'] by simp
          then show ?thesis using m'(1) h(1) by (intro exI [of _ "Suc m'"]) simp
        qed
      qed
    qed
  qed
qed


text \<open>
  When the content that differs is needed sooner on one side, that side needs no
  additional fault.
\<close>

lemma sooner_page:
  "replay (insert b R) s m \<Longrightarrow> a \<notin> R \<Longrightarrow> b \<notin> R \<Longrightarrow> next_use s a \<le> next_use s b \<Longrightarrow>
   \<exists>m'\<le>m. replay (insert a R) s m'"
proof (induction s arbitrary: R a b m)
  case Nil
  then have "m = 0" by (auto elim: replay_NilE)
  then show ?case by (auto intro: replay.finished)
next
  case (Cons r s)
  show ?case
  proof (cases "a = b")
    case True
    then have "replay (insert a R) (r # s) m" using Cons.prems(1) by simp
    then show ?thesis by (intro exI [of _ m]) simp
  next
    case ab: False
    have rb: "r \<noteq> b"
    proof
      assume "r = b"
      then have "next_use (r # s) a = 0" using Cons.prems(4) by simp
      then have "a = r" by (simp split: if_splits)
      then show False using \<open>r = b\<close> ab by simp
    qed
    from replay_Cons_cases [OF Cons.prems(1)] consider
      (hit) "r \<in> insert b R" "replay (insert b R) s m"
      | (miss) q m0 where "m = Suc m0" "r \<notin> insert b R" "q \<in> insert b R"
          "replay (insert r (insert b R - {q})) s m0"
      by blast
    then show ?thesis
    proof cases
      case hit
      note h = hit
      have rR: "r \<in> R" using h(1) rb by auto
      then have "r \<noteq> a" using Cons.prems(2) by auto
      then have "next_use s a \<le> next_use s b"
        using Cons.prems(4) rb by simp
      then obtain m' where "m' \<le> m" "replay (insert a R) s m'"
        using Cons.IH [OF h(2) Cons.prems(2,3)] by auto
      then show ?thesis using rR by (intro exI [of _ m']) (simp add: replay.hit)
    next
      case miss
      note h = miss
      have rR: "r \<notin> R" using h(2) by auto
      show ?thesis
      proof (cases "r = a")
        case ra: True
        show ?thesis
        proof (cases "q = b")
          case True
          then have "insert r (insert b R - {q}) = insert a R"
            using ra Cons.prems(3) by auto
          then have "replay (insert a R) (r # s) m0"
            using h(4) ra by (auto intro: replay.hit)
          then show ?thesis using h(1) by (intro exI [of _ m0]) simp
        next
          case False
          then have qR: "q \<in> R" using h(3) by auto
          let ?R = "insert a (R - {q})"
          have "insert r (insert b R - {q}) = insert b ?R"
            using ra False by auto
          then have "replay (insert b ?R) s m0" using h(4) by simp
          moreover have "q \<notin> ?R" "b \<notin> ?R"
            using qR Cons.prems(2,3) ab by auto
          ultimately obtain m' where m': "m' \<le> Suc m0" "replay (insert q ?R) s m'"
            using swap_one_page [of b ?R s m0 q] by auto
          have "insert q ?R = insert a R" using qR by auto
          then have "replay (insert a R) (r # s) m'"
            using m'(2) ra by (auto intro: replay.hit)
          then show ?thesis using m'(1) h(1) by (intro exI [of _ m']) simp
        qed
      next
        case ra: False
        then have rS: "r \<notin> insert a R" using rR by auto
        have nu: "next_use s a \<le> next_use s b"
          using Cons.prems(4) ra rb by simp
        show ?thesis
        proof (cases "q = b")
          case True
          then have "insert r (insert b R - {q}) = insert r (insert a R - {a})"
            using Cons.prems(2,3) by auto
          then have "replay (insert a R) (r # s) (Suc m0)"
            using h(4) rS replay.miss [of r "insert a R" a s m0] by simp
          then show ?thesis using h(1) by (intro exI [of _ "Suc m0"]) simp
        next
          case False
          then have qR: "q \<in> R" using h(3) by auto
          let ?R = "insert r (R - {q})"
          have "insert r (insert b R - {q}) = insert b ?R"
            using False by auto
          then have "replay (insert b ?R) s m0" using h(4) by simp
          moreover have "a \<notin> ?R" "b \<notin> ?R"
            using Cons.prems(2,3) ra rb by auto
          ultimately obtain m' where m': "m' \<le> m0" "replay (insert a ?R) s m'"
            using Cons.IH [of b ?R m0 a] nu by auto
          have "insert r (insert a R - {q}) = insert a ?R"
            using qR Cons.prems(2) by auto
          moreover have "q \<in> insert a R" using qR by simp
          ultimately have "replay (insert a R) (r # s) (Suc m')"
            using m'(2) rS replay.miss [of r "insert a R" q s m'] by simp
          then show ?thesis using m'(1) h(1) by (intro exI [of _ "Suc m'"]) simp
        qed
      qed
    qed
  qed
qed

lemma furthest_Cons_cases:
  "furthest_replay S (r # s) n \<Longrightarrow>
   (r \<in> S \<and> furthest_replay S s n)
   \<or> (\<exists>q n0. n = Suc n0 \<and> r \<notin> S \<and> q \<in> S \<and> (\<forall>x\<in>S. next_use s x \<le> next_use s q)
         \<and> furthest_replay (insert r (S - {q})) s n0)"
  by (erule furthest_ConsE) blast+

text \<open>Hence no replay counts fewer faults than one that replaces the furthest content.\<close>

theorem furthest_replay_least:
  "furthest_replay S s n \<Longrightarrow> replay S s m \<Longrightarrow> n \<le> m"
proof (induction s arbitrary: S n m)
  case Nil
  then show ?case by (auto elim: furthest_replay.cases)
next
  case (Cons r s)
  show ?case
  proof (cases "r \<in> S")
    case True
    then have "furthest_replay S s n" "replay S s m"
      using furthest_Cons_cases [OF Cons.prems(1)] replay_Cons_cases [OF Cons.prems(2)] by auto
    then show ?thesis by (rule Cons.IH)
  next
    case False
    then obtain q n0 where f: "n = Suc n0" "q \<in> S" "\<forall>x\<in>S. next_use s x \<le> next_use s q"
      "furthest_replay (insert r (S - {q})) s n0"
      using furthest_Cons_cases [OF Cons.prems(1)] by auto
    from False obtain q' m0 where g: "m = Suc m0" "q' \<in> S" "replay (insert r (S - {q'})) s m0"
      using replay_Cons_cases [OF Cons.prems(2)] by auto
    let ?R = "insert r (S - {q, q'})"
    have "\<exists>m'\<le>m0. replay (insert r (S - {q})) s m'"
    proof (cases "q = q'")
      case True
      then show ?thesis using g(3) by (intro exI [of _ m0]) simp
    next
      case ne: False
      have "insert r (S - {q'}) = insert q ?R" "insert r (S - {q}) = insert q' ?R"
        using f(2) g(2) ne by auto
      moreover have "q' \<notin> ?R" "q \<notin> ?R" using False f(2) g(2) by auto
      moreover have "next_use s q' \<le> next_use s q" using f(3) g(2) by auto
      ultimately show ?thesis
        using sooner_page [of q ?R s m0 q'] g(3) by simp
    qed
    then obtain m' where "m' \<le> m0" "replay (insert r (S - {q})) s m'" by auto
    then have "n0 \<le> m0" using Cons.IH [OF f(4)] by fastforce
    then show ?thesis using f(1) g(1) by simp
  qed
qed

subsection \<open>The three policies as replays\<close>

lemma next_use_le_length: "next_use s x \<le> length s"
  by (induction s) auto

lemma next_use_absent: "x \<notin> set s \<Longrightarrow> next_use s x = length s"
  by (induction s) auto

lemma next_use_map_Inr: "next_use (map Inr s) (Inr x) = next_use s x"
  by (induction s) auto

lemma frames_page [simp]: "Inr p \<in> frames c cp \<longleftrightarrow> p \<in> set cp"
  by (auto simp: frames_def)

lemma frames_same: "set cp' = set cp \<Longrightarrow> length cp' = length cp \<Longrightarrow> frames c cp' = frames c cp"
  by (simp add: frames_def)

lemma frames_push:
  assumes "length cp < c" "p \<notin> set cp"
  shows "Inl (length cp) \<in> frames c cp"
    and "frames c (cp @ [p]) = insert (Inr p) (frames c cp - {Inl (length cp)})"
  using assms by (auto simp: frames_def)

lemma frames_replace:
  assumes "distinct cp" "q \<in> set cp" "p \<notin> set cp"
  shows "frames c (remove1 q cp @ [p]) = insert (Inr p) (frames c cp - {Inr q})"
proof -
  have "Suc (length (remove1 q cp)) = length cp"
    using assms(2) by (rule length_remove1_present)
  then have "length (remove1 q cp @ [p]) = length cp" by simp
  moreover have "set (remove1 q cp) = set cp - {q}"
    using assms(1) by simp
  ultimately show ?thesis
    using assms(2,3) by (auto simp: frames_def)
qed

lemma replay_hitI:
  "p \<in> set cp \<Longrightarrow> replay (frames c cp) (map Inr s) n \<Longrightarrow>
   replay (frames c cp) (map Inr (p # s)) n"
  by (simp add: replay.hit)

lemma replay_missI:
  "p \<notin> set cp \<Longrightarrow> q \<in> frames c cp \<Longrightarrow>
   replay (insert (Inr p) (frames c cp - {q})) (map Inr s) n \<Longrightarrow>
   replay (frames c cp) (map Inr (p # s)) (Suc n)"
  by (simp add: replay.miss)

lemma FIFO_loop_replay:
  assumes c: "0 < size_t nf"
  shows "distinct cp \<Longrightarrow> length cp \<le> size_t nf \<Longrightarrow> FIFO_loop nf s (cp, f) = Inr (cp', f') \<Longrightarrow>
     \<exists>n. f' = f + int n \<and> replay (frames (size_t nf) cp) (map Inr s) n"
proof (induction s arbitrary: cp f)
  case Nil
  then show ?case by (auto intro: replay.finished)
next
  case (Cons p s)
  let ?c = "size_t nf"
  show ?case
  proof (cases "p \<in> set cp")
    case True
    then have "FIFO_loop nf s (cp, f) = Inr (cp', f')"
      using Cons.prems(3) by (simp add: FIFO_step_hit)
    then obtain n where "f' = f + int n" "replay (frames ?c cp) (map Inr s) n"
      using Cons.IH [of cp f] Cons.prems(1,2) by auto
    then show ?thesis using True by (intro exI [of _ n]) (simp only: replay_hitI)
  next
    case False
    show ?thesis
    proof (cases "length cp = ?c")
      case True
      then obtain q cp0 where q: "cp = q # cp0" using c by (cases cp) auto
      then have "FIFO_loop nf s (cp0 @ [p], f + 1) = Inr (cp', f')"
        using Cons.prems(3) True False FIFO_step_miss_full [of p q cp0 nf f] by simp
      moreover have "distinct (cp0 @ [p])" "length (cp0 @ [p]) \<le> ?c"
        using Cons.prems(1,2) q False by auto
      ultimately obtain n where n: "f' = f + 1 + int n"
        "replay (frames ?c (cp0 @ [p])) (map Inr s) n"
        using Cons.IH [of "cp0 @ [p]" "f + 1"] by auto
      have "frames ?c (remove1 q cp @ [p]) = insert (Inr p) (frames ?c cp - {Inr q})"
        using Cons.prems(1) q False by (intro frames_replace) auto
      then have "replay (insert (Inr p) (frames ?c cp - {Inr q})) (map Inr s) n"
        using n(2) q by simp
      moreover have "Inr q \<in> frames ?c cp" using q by simp
      ultimately have "replay (frames ?c cp) (map Inr (p # s)) (Suc n)"
        using False by (intro replay_missI)
      then show ?thesis using n(1) by (intro exI [of _ "Suc n"]) simp
    next
      case ne: False
      then have lt: "length cp < ?c" using Cons.prems(2) by simp
      have "FIFO_loop nf s (cp @ [p], f + 1) = Inr (cp', f')"
        using Cons.prems(3) ne False FIFO_step_miss_room [of p cp nf f] by simp
      moreover have "distinct (cp @ [p])" "length (cp @ [p]) \<le> ?c"
        using Cons.prems(1) lt False by auto
      ultimately obtain n where n: "f' = f + 1 + int n"
        "replay (frames ?c (cp @ [p])) (map Inr s) n"
        using Cons.IH [of "cp @ [p]" "f + 1"] by auto
      have "replay (insert (Inr p) (frames ?c cp - {Inl (length cp)})) (map Inr s) n"
        using n(2) frames_push(2) [OF lt False] by simp
      moreover have "Inl (length cp) \<in> frames ?c cp" using frames_push(1) [OF lt False] .
      ultimately have "replay (frames ?c cp) (map Inr (p # s)) (Suc n)"
        using False by (intro replay_missI)
      then show ?thesis using n(1) by (intro exI [of _ "Suc n"]) simp
    qed
  qed
qed


lemma LRU_loop_replay:
  assumes c: "0 < size_t nf"
  shows "distinct cp \<Longrightarrow> length cp \<le> size_t nf \<Longrightarrow> LRU_loop nf s (cp, f) = Inr (cp', f') \<Longrightarrow>
     \<exists>n. f' = f + int n \<and> replay (frames (size_t nf) cp) (map Inr s) n"
proof (induction s arbitrary: cp f)
  case Nil
  then show ?case by (auto intro: replay.finished)
next
  case (Cons p s)
  let ?c = "size_t nf"
  show ?case
  proof (cases "p \<in> set cp")
    case True
    then have False
      using Cons.prems(3) by (simp add: LRU_step_hit)
    then show ?thesis ..
  next
    case False
    show ?thesis
    proof (cases "length cp = ?c")
      case True
      then obtain q cp0 where q: "cp = q # cp0" using c by (cases cp) auto
      then have "LRU_loop nf s (cp0 @ [p], f + 1) = Inr (cp', f')"
        using Cons.prems(3) True False LRU_step_miss_full [of p q cp0 nf f] by simp
      moreover have "distinct (cp0 @ [p])" "length (cp0 @ [p]) \<le> ?c"
        using Cons.prems(1,2) q False by auto
      ultimately obtain n where n: "f' = f + 1 + int n"
        "replay (frames ?c (cp0 @ [p])) (map Inr s) n"
        using Cons.IH [of "cp0 @ [p]" "f + 1"] by auto
      have "frames ?c (remove1 q cp @ [p]) = insert (Inr p) (frames ?c cp - {Inr q})"
        using Cons.prems(1) q False by (intro frames_replace) auto
      then have "replay (insert (Inr p) (frames ?c cp - {Inr q})) (map Inr s) n"
        using n(2) q by simp
      moreover have "Inr q \<in> frames ?c cp" using q by simp
      ultimately have "replay (frames ?c cp) (map Inr (p # s)) (Suc n)"
        using False by (intro replay_missI)
      then show ?thesis using n(1) by (intro exI [of _ "Suc n"]) simp
    next
      case ne: False
      then have lt: "length cp < ?c" using Cons.prems(2) by simp
      have "LRU_loop nf s (cp @ [p], f + 1) = Inr (cp', f')"
        using Cons.prems(3) ne False LRU_step_miss_room [of p cp nf f] by simp
      moreover have "distinct (cp @ [p])" "length (cp @ [p]) \<le> ?c"
        using Cons.prems(1) lt False by auto
      ultimately obtain n where n: "f' = f + 1 + int n"
        "replay (frames ?c (cp @ [p])) (map Inr s) n"
        using Cons.IH [of "cp @ [p]" "f + 1"] by auto
      have "replay (insert (Inr p) (frames ?c cp - {Inl (length cp)})) (map Inr s) n"
        using n(2) frames_push(2) [OF lt False] by simp
      moreover have "Inl (length cp) \<in> frames ?c cp" using frames_push(1) [OF lt False] .
      ultimately have "replay (frames ?c cp) (map Inr (p # s)) (Suc n)"
        using False by (intro replay_missI)
      then show ?thesis using n(1) by (intro exI [of _ "Suc n"]) simp
    qed
  qed
qed

text \<open>
  The stack of OPT lists pages in the order of their first coming request, so its top is
  the page whose next use is furthest away.
\<close>

lemma uniqueMemoryStack_prefix: "\<exists>more. uniqueMemoryStack rest cp acc = acc @ more"
  by (induction rest cp acc rule: uniqueMemoryStack.induct) auto

lemma uniqueMemoryStack_last_new:
  assumes "distinct acc" "set (uniqueMemoryStack rest cp acc) \<noteq> set acc"
  shows "last (uniqueMemoryStack rest cp acc) \<notin> set acc"
proof -
  obtain more where m: "uniqueMemoryStack rest cp acc = acc @ more"
    using uniqueMemoryStack_prefix by blast
  then have "more \<noteq> []" using assms(2) by auto
  moreover have "distinct (acc @ more)"
    using assms(1) m uniqueMemoryStack_distinct [of acc rest cp] by simp
  ultimately show ?thesis using m by (auto simp: last_append dest: last_in_set)
qed

lemma uniqueMemoryStack_last_furthest:
  "distinct acc \<Longrightarrow> x \<in> set (uniqueMemoryStack rest cp acc) \<Longrightarrow> x \<notin> set acc \<Longrightarrow>
   next_use rest x \<le> next_use rest (last (uniqueMemoryStack rest cp acc))"
proof (induction rest arbitrary: acc)
  case Nil
  then show ?case by simp
next
  case (Cons r rest)
  define st where "st = uniqueMemoryStack (r # rest) cp acc"
  have xst: "x \<in> set st" using Cons.prems(2) st_def by simp
  then have "set st \<noteq> set acc" using Cons.prems(3) by blast
  then have new: "last st \<notin> set acc"
    unfolding st_def using Cons.prems(1) by (rule uniqueMemoryStack_last_new [rotated])
  have "st \<noteq> []" using xst by auto
  then have lst: "last st \<in> set st" by (rule last_in_set)
  have sst: "set st = set acc \<union> (set (r # rest) \<inter> set cp)"
    unfolding st_def by (rule uniqueMemoryStack_set)
  have cp: "x \<in> set cp" "last st \<in> set cp"
    using xst lst new Cons.prems(3) sst by blast+
  have "next_use (r # rest) x \<le> next_use (r # rest) (last st)"
  proof (cases "r \<in> set cp \<and> r \<notin> set acc")
    case True
    then have st: "st = uniqueMemoryStack rest cp (acc @ [r])" by (simp add: st_def)
    show ?thesis
    proof (cases "x = r")
      case True
      then show ?thesis by simp
    next
      case False
      then have x: "x \<notin> set (acc @ [r])" using Cons.prems(3) by simp
      have d: "distinct (acc @ [r])" using Cons.prems(1) True by simp
      have x': "x \<in> set (uniqueMemoryStack rest cp (acc @ [r]))" using xst st by simp
      have "next_use rest x \<le> next_use rest (last st)"
        using Cons.IH [OF d x' x] st by simp
      moreover have "set (uniqueMemoryStack rest cp (acc @ [r])) \<noteq> set (acc @ [r])"
        using x x' by blast
      then have "last st \<notin> set (acc @ [r])"
        unfolding st using d by (rule uniqueMemoryStack_last_new [rotated])
      then have "last st \<noteq> r" by simp
      ultimately show ?thesis using False by simp
    qed
  next
    case False
    then have st: "st = uniqueMemoryStack rest cp acc" by (auto simp: st_def)
    have "x \<noteq> r" "last st \<noteq> r"
      using False Cons.prems(3) new cp by auto
    moreover have "next_use rest x \<le> next_use rest (last st)"
      using Cons.IH [OF Cons.prems(1) _ Cons.prems(3)] xst st by simp
    ultimately show ?thesis by simp
  qed
  then show ?case by (simp only: st_def)
qed


lemma next_use_empty_frame: "next_use (map Inr s) (Inl i) = length s"
  using next_use_absent [of "Inl i" "map Inr s"] by auto

lemma next_use_page_absent: "y \<notin> set s \<Longrightarrow> next_use (map Inr s) (Inr y) = length s"
  by (simp add: next_use_map_Inr next_use_absent)

lemma next_use_frame_le: "next_use (map Inr s) x \<le> length s"
  using next_use_le_length [of "map Inr s" x] by simp

lemma frames_full: "length cp = c \<Longrightarrow> frames c cp = Inr ` set cp"
  by (simp add: frames_def)

lemma OPT_step_hit: "p \<in> set cp \<Longrightarrow> OPT_step np nf p rest (cp, f) = Inr (cp, f)"
  by (simp add: OPT_step_def)

lemma OPT_step_furthest:
  assumes c: "0 < size_t nf" and eq: "size_t np = size_t nf"
    and d: "distinct cp" and l: "length cp \<le> size_t nf" and p: "p \<notin> set cp"
  shows "\<exists>q cp1. OPT_step np nf p rest (cp, f) = Inr (cp1, f + 1)
           \<and> q \<in> frames (size_t nf) cp
           \<and> frames (size_t nf) cp1 = insert (Inr p) (frames (size_t nf) cp - {q})
           \<and> (\<forall>x\<in>frames (size_t nf) cp. next_use (map Inr rest) x \<le> next_use (map Inr rest) q)
           \<and> distinct cp1 \<and> length cp1 \<le> size_t nf"
proof (cases "length cp = size_t nf")
  case False
  then have lt: "length cp < size_t nf" using l by simp
  have "OPT_step np nf p rest (cp, f) = Inr (cp @ [p], f + 1)"
    using False eq p by (simp add: OPT_step_def)
  moreover have "Inl (length cp) \<in> frames (size_t nf) cp"
    "frames (size_t nf) (cp @ [p]) = insert (Inr p) (frames (size_t nf) cp - {Inl (length cp)})"
    using frames_push [OF lt p] by simp_all
  moreover have "\<forall>x\<in>frames (size_t nf) cp.
      next_use (map Inr rest) x \<le> next_use (map Inr rest) (Inl (length cp))"
    by (simp add: next_use_empty_frame next_use_frame_le)
  moreover have "distinct (cp @ [p])" "length (cp @ [p]) \<le> size_t nf"
    using d p lt by auto
  ultimately show ?thesis by blast
next
  case full: True
  define st where "st = uniqueMemoryStack (p # rest) cp []"
  have st: "distinct st" "set st = set rest \<inter> set cp"
    using p by (auto simp: st_def uniqueMemoryStack_distinct uniqueMemoryStack_set)
  have cp: "cp \<noteq> []" using full c by auto
  have st2: "uniqueMemoryStack rest cp [] = st" using p by (simp add: st_def)
  have "\<exists>y. y \<in> set cp \<and> OPT_step np nf p rest (cp, f) = Inr (remove1 y cp @ [p], f + 1)
          \<and> (\<forall>x\<in>set cp. next_use rest x \<le> next_use rest y)"
  proof (cases "length st = size_t np")
    case True
    then have "length st = length cp" using full eq by simp
    moreover have "set st \<subseteq> set cp" using st(2) by auto
    ultimately have all: "set st = set cp"
      using st(1) d by (metis card_subset_eq distinct_card List.finite_set)
    then have ne: "st \<noteq> []" using cp by auto
    then have y: "last st \<in> set cp" using all last_in_set by blast
    have "OPT_step np nf p rest (cp, f) = Inr (remove1 (last st) cp @ [p], f + 1)"
      using p full eq True ne erase_stack_top_remove1 [of st cp]
      by (simp add: OPT_step_def Let_def st2)
    moreover have "next_use rest x \<le> next_use rest (last st)" if "x \<in> set cp" for x
    proof -
      have "x \<in> set (uniqueMemoryStack rest cp [])"
        using that all by (simp add: st2)
      then have "next_use rest x \<le> next_use rest (last (uniqueMemoryStack rest cp []))"
        by (intro uniqueMemoryStack_last_furthest) simp_all
      then show ?thesis by (simp add: st2)
    qed
    ultimately show ?thesis using y by blast
  next
    case False
    then have "length st \<noteq> length cp" using full eq by simp
    moreover have "set st \<subseteq> set cp" using st(2) by auto
    ultimately have "\<not> set cp \<subseteq> set st"
      using proper_subset_of_memory [OF st(1) d] by simp
    then obtain y where y: "y \<in> set cp" "y \<notin> set st" "erase_unused st cp = remove1 y cp"
      using erase_unused_remove1 [of cp st] by blast
    have "OPT_step np nf p rest (cp, f) = Inr (remove1 y cp @ [p], f + 1)"
      using p full eq False y(3) by (simp add: OPT_step_def Let_def st2)
    moreover have "y \<notin> set rest" using y(1,2) st(2) by auto
    then have "next_use rest y = length rest" by (rule next_use_absent)
    then have "\<forall>x\<in>set cp. next_use rest x \<le> next_use rest y"
      by (simp add: next_use_le_length)
    ultimately show ?thesis using y(1) by blast
  qed
  then obtain y where y: "y \<in> set cp"
    "OPT_step np nf p rest (cp, f) = Inr (remove1 y cp @ [p], f + 1)"
    "\<forall>x\<in>set cp. next_use rest x \<le> next_use rest y"
    by blast
  have "Inr y \<in> frames (size_t nf) cp" using y(1) by simp
  moreover have "frames (size_t nf) (remove1 y cp @ [p])
      = insert (Inr p) (frames (size_t nf) cp - {Inr y})"
    using d y(1) p by (rule frames_replace)
  moreover have "\<forall>x\<in>frames (size_t nf) cp.
      next_use (map Inr rest) x \<le> next_use (map Inr rest) (Inr y)"
    using y(3) full by (auto simp: frames_full next_use_map_Inr)
  moreover have "distinct (remove1 y cp @ [p])" using d p by (auto dest: notin_set_remove1)
  moreover have "length (remove1 y cp @ [p]) \<le> size_t nf"
    using length_remove1_present [OF y(1)] l by simp
  ultimately show ?thesis using y(2) by blast
qed

lemma furthest_hitI:
  "p \<in> set cp \<Longrightarrow> furthest_replay (frames c cp) (map Inr s) n \<Longrightarrow>
   furthest_replay (frames c cp) (map Inr (p # s)) n"
  by (simp add: furthest_replay.f_hit)

lemma furthest_missI:
  "p \<notin> set cp \<Longrightarrow> q \<in> frames c cp \<Longrightarrow>
   \<forall>x\<in>frames c cp. next_use (map Inr s) x \<le> next_use (map Inr s) q \<Longrightarrow>
   furthest_replay (insert (Inr p) (frames c cp - {q})) (map Inr s) n \<Longrightarrow>
   furthest_replay (frames c cp) (map Inr (p # s)) (Suc n)"
  by (simp add: furthest_replay.f_miss)

lemma OPT_loop_furthest:
  assumes c: "0 < size_t nf" and eq: "size_t np = size_t nf"
  shows "distinct cp \<Longrightarrow> length cp \<le> size_t nf \<Longrightarrow> OPT_loop np nf s (cp, f) = Inr (cp', f') \<Longrightarrow>
     \<exists>n. f' = f + int n \<and> furthest_replay (frames (size_t nf) cp) (map Inr s) n"
proof (induction s arbitrary: cp f)
  case Nil
  then show ?case by (auto intro: furthest_replay.f_finished)
next
  case (Cons p s)
  let ?c = "size_t nf"
  show ?case
  proof (cases "p \<in> set cp")
    case True
    then have "OPT_loop np nf s (cp, f) = Inr (cp', f')"
      using Cons.prems(3) by (simp add: OPT_step_hit)
    then obtain n where "f' = f + int n" "furthest_replay (frames ?c cp) (map Inr s) n"
      using Cons.IH [of cp f] Cons.prems(1,2) by auto
    then show ?thesis using True by (intro exI [of _ n]) (simp only: furthest_hitI)
  next
    case False
    obtain q cp1 where s1: "OPT_step np nf p s (cp, f) = Inr (cp1, f + 1)"
      and q: "q \<in> frames ?c cp" "frames ?c cp1 = insert (Inr p) (frames ?c cp - {q})"
      "\<forall>x\<in>frames ?c cp. next_use (map Inr s) x \<le> next_use (map Inr s) q"
      and i: "distinct cp1" "length cp1 \<le> ?c"
      using OPT_step_furthest [OF c eq Cons.prems(1,2) False, of s f] by blast
    have "OPT_loop np nf s (cp1, f + 1) = Inr (cp', f')"
      using Cons.prems(3) s1 by simp
    then obtain n where n: "f' = f + 1 + int n" "furthest_replay (frames ?c cp1) (map Inr s) n"
      using Cons.IH [OF i] by auto
    have "furthest_replay (frames ?c cp) (map Inr (p # s)) (Suc n)"
      using False q(1,3) n(2) q(2) by (intro furthest_missI) simp_all
    then show ?thesis using n(1) by (intro exI [of _ "Suc n"]) simp
  qed
qed

lemma LRU_CalculatePageFaults_returns:
  "LRU_CalculatePageFaults \<lparr>ref_string_m = s, num_pages_m = np, num_frames_m = c\<rparr> = Inr lru \<Longrightarrow>
   \<exists>cp. LRU_loop c s ([], 0) = Inr (cp, lru)"
  by (auto simp: LRU_CalculatePageFaults_def split: sum.splits)

text \<open>
  When the number of pages and the number of frames are the same number \<open>c\<close>, the two
  branches of OPT agree on the capacity, OPT replaces the furthest content at every
  fault, and its fault count is at most the count of FIFO with \<open>c\<close> frames, and at most
  the count of LRU with \<open>c\<close> frames whenever the replay of LRU returns one.
\<close>

theorem OPT_least_when_bounds_agree:
  assumes "1 \<le> c" "c < 2 ^ 31"
  shows "\<exists>opt fifo.
      OPT_CalculatePageFaults \<lparr>ref_string_m = s, num_pages_m = c, num_frames_m = c\<rparr> = Inr opt
    \<and> FIFO_CalculatePageFaults \<lparr>ref_string_m = s, num_pages_m = np, num_frames_m = c\<rparr> = Inr fifo
    \<and> opt \<le> fifo
    \<and> (\<forall>lru. LRU_CalculatePageFaults \<lparr>ref_string_m = s, num_pages_m = np, num_frames_m = c\<rparr>
            = Inr lru \<longrightarrow> opt \<le> lru)"
proof -
  have c: "0 < size_t c" using assms by (rule size_t_pos)
  obtain cpo fo where o: "OPT_loop c c s ([], 0) = Inr (cpo, fo)"
    using OPT_loop_returns [of "([], 0)" c c s] by auto
  obtain cpf ff where f: "FIFO_loop c s ([], 0) = Inr (cpf, ff)"
    using FIFO_loop_capacity [of c "([], 0)" s] c by auto
  obtain n where n: "fo = int n" "furthest_replay (frames (size_t c) []) (map Inr s) n"
    using OPT_loop_furthest [OF c refl, of "[]" s 0 cpo fo] o by auto
  obtain m where m: "ff = int m" "replay (frames (size_t c) []) (map Inr s) m"
    using FIFO_loop_replay [OF c, of "[]" s 0 cpf ff] f by auto
  have "n \<le> m"
    using furthest_replay_least [OF n(2)] m(2) by auto
  then have fifo: "fo \<le> ff" using n(1) m(1) by simp
  have lru: "fo \<le> fl"
    if h: "LRU_CalculatePageFaults \<lparr>ref_string_m = s, num_pages_m = np, num_frames_m = c\<rparr> = Inr fl"
    for fl
  proof -
    obtain cpl where l: "LRU_loop c s ([], 0) = Inr (cpl, fl)"
      using LRU_CalculatePageFaults_returns [OF h] by auto
    obtain k where k: "fl = int k" "replay (frames (size_t c) []) (map Inr s) k"
      using LRU_loop_replay [OF c, of "[]" s 0 cpl fl] l by auto
    have "n \<le> k" using furthest_replay_least [OF n(2)] k(2) by auto
    then show ?thesis using n(1) k(1) by simp
  qed
  have "OPT_CalculatePageFaults \<lparr>ref_string_m = s, num_pages_m = c, num_frames_m = c\<rparr> = Inr fo"
    "FIFO_CalculatePageFaults \<lparr>ref_string_m = s, num_pages_m = np, num_frames_m = c\<rparr> = Inr ff"
    using o f by (simp_all add: OPT_CalculatePageFaults_def FIFO_CalculatePageFaults_def)
  then show ?thesis using fifo lru by blast
qed

subsection \<open>Page ids below the number of pages\<close>

text \<open>Every replay counts a fault for each requested page that is not in memory at the start.\<close>

lemma replay_first_requests: "replay S s n \<Longrightarrow> card (set s - S) \<le> n"
proof (induction rule: replay.induct)
  case (finished S)
  then show ?case by simp
next
  case (hit p S rest n)
  have "set (p # rest) - S = set rest - S" using hit.hyps(1) by auto
  then show ?case using hit.IH by simp
next
  case (miss p S q rest n)
  have "set (p # rest) - S \<subseteq> insert p (set rest - insert p (S - {q}))"
    by auto
  then have "card (set (p # rest) - S) \<le> card (insert p (set rest - insert p (S - {q})))"
    by (intro card_mono) auto
  also have "\<dots> \<le> Suc (card (set rest - insert p (S - {q})))"
    by (simp add: card_insert_if)
  finally show ?case using miss.IH by simp
qed

lemma replay_from_empty_memory:
  assumes "replay (frames c []) (map Inr s) n"
  shows "card (set s) \<le> n"
proof -
  have "set (map Inr s) - frames c [] = Inr ` set s"
    by (auto simp: frames_def)
  moreover have "card (Inr ` set s :: (nat + int) set) = card (set s)"
    by (simp add: card_image)
  ultimately show ?thesis
    using replay_first_requests [OF assms] by simp
qed

text \<open>
  When the two bounds differ and every page id is below the number of pages, the memory
  of OPT never holds \<^verbatim>\<open>num_pages_\<close> pages at a miss: the eviction branch is not taken, and
  OPT counts a fault only when it loads a page into a free frame.
\<close>

lemma OPT_step_bounds_differ:
  assumes "distinct cp"
    and "(length cp \<le> size_t nf \<and> size_t nf < size_t np)
         \<or> (size_t np < size_t nf \<and> size_t np = nat np \<and> (\<forall>x\<in>set cp. 0 \<le> x \<and> x < np))"
    and "0 \<le> p" "p < np"
  shows "OPT_step np nf p rest (cp, f)
     = (if p \<notin> set cp \<and> length cp \<noteq> size_t nf then Inr (cp @ [p], f + 1) else Inr (cp, f))"
proof (cases "length cp = size_t np \<and> p \<notin> set cp")
  case False
  then show ?thesis by (auto simp: OPT_step_def)
next
  case True
  from assms(2) have False
  proof
    assume "length cp \<le> size_t nf \<and> size_t nf < size_t np"
    then have "length cp < size_t np" by linarith
    then show False using True by simp
  next
    assume b: "size_t np < size_t nf \<and> size_t np = nat np \<and> (\<forall>x\<in>set cp. 0 \<le> x \<and> x < np)"
    then have "set cp \<subseteq> {0..<np}" by auto
    moreover have "card (set cp) = card {0..<np}"
      using assms(1) True b by (simp add: distinct_card)
    ultimately have "set cp = {0..<np}"
      by (intro card_subset_eq) auto
    then show False using True assms(3,4) by auto
  qed
  then show ?thesis ..
qed

lemma OPT_loop_bounds_differ:
  "distinct cp \<Longrightarrow>
   (length cp \<le> size_t nf \<and> size_t nf < size_t np)
     \<or> (size_t np < size_t nf \<and> size_t np = nat np \<and> (\<forall>x\<in>set cp. 0 \<le> x \<and> x < np)) \<Longrightarrow>
   \<forall>p\<in>set s. 0 \<le> p \<and> p < np \<Longrightarrow>
   OPT_loop np nf s (cp, f) = Inr (cp', f') \<Longrightarrow>
   f' - f = int (length cp') - int (length cp) \<and> distinct cp' \<and> set cp' \<subseteq> set cp \<union> set s"
proof (induction s arbitrary: cp f)
  case Nil
  then show ?case by auto
next
  case (Cons p s)
  have p: "0 \<le> p" "p < np" using Cons.prems(3) by auto
  have step: "OPT_step np nf p s (cp, f)
     = (if p \<notin> set cp \<and> length cp \<noteq> size_t nf then Inr (cp @ [p], f + 1) else Inr (cp, f))"
    using Cons.prems(1,2) p by (rule OPT_step_bounds_differ)
  show ?case
  proof (cases "p \<notin> set cp \<and> length cp \<noteq> size_t nf")
    case True
    then have l: "OPT_loop np nf s (cp @ [p], f + 1) = Inr (cp', f')"
      using Cons.prems(4) step by simp
    have d: "distinct (cp @ [p])" using Cons.prems(1) True by simp
    have i: "(length (cp @ [p]) \<le> size_t nf \<and> size_t nf < size_t np)
      \<or> (size_t np < size_t nf \<and> size_t np = nat np \<and> (\<forall>x\<in>set (cp @ [p]). 0 \<le> x \<and> x < np))"
      using Cons.prems(2) True p by auto
    have v: "\<forall>p\<in>set s. 0 \<le> p \<and> p < np" using Cons.prems(3) by simp
    show ?thesis using Cons.IH [OF d i v l] by auto
  next
    case False
    then have l: "OPT_loop np nf s (cp, f) = Inr (cp', f')"
      using Cons.prems(4) step by auto
    have v: "\<forall>p\<in>set s. 0 \<le> p \<and> p < np" using Cons.prems(3) by simp
    show ?thesis using Cons.IH [OF Cons.prems(1,2) v l] by auto
  qed
qed

text \<open>
  So OPT counts at most one fault for each page of the string, and the inequality of the
  fault counts holds on every reference string whose page ids are below the number of
  pages, whether the two bounds agree or not.
\<close>

theorem OPT_least_on_pages_below_bound:
  assumes "1 \<le> c" "c < 2 ^ 31" "np < 2 ^ 31" "\<forall>p\<in>set s. 0 \<le> p \<and> p < np"
  shows "\<exists>opt fifo.
      OPT_CalculatePageFaults \<lparr>ref_string_m = s, num_pages_m = np, num_frames_m = c\<rparr> = Inr opt
    \<and> FIFO_CalculatePageFaults \<lparr>ref_string_m = s, num_pages_m = np, num_frames_m = c\<rparr> = Inr fifo
    \<and> opt \<le> fifo
    \<and> (\<forall>lru. LRU_CalculatePageFaults \<lparr>ref_string_m = s, num_pages_m = np, num_frames_m = c\<rparr>
            = Inr lru \<longrightarrow> opt \<le> lru)"
proof (cases "np = c")
  case True
  then show ?thesis using OPT_least_when_bounds_agree [OF assms(1,2), of s np] by simp
next
  case False
  have c: "0 < size_t c" using assms(1,2) by (rule size_t_pos)
  have sc: "size_t c = nat c" using assms(1,2) by (simp add: size_t_int)
  obtain cpo fo where o: "OPT_loop np c s ([], 0) = Inr (cpo, fo)"
    using OPT_loop_returns [of "([], 0)" np c s] by auto
  obtain cpf ff where f: "FIFO_loop c s ([], 0) = Inr (cpf, ff)"
    using FIFO_loop_capacity [of c "([], 0)" s] c by auto
  obtain m where m: "ff = int m" "replay (frames (size_t c) []) (map Inr s) m"
    using FIFO_loop_replay [OF c, of "[]" s 0 cpf ff] f by auto
  have opt: "fo \<le> int (card (set s))"
  proof (cases "s = []")
    case True
    then show ?thesis using o by simp
  next
    case ne: False
    then obtain p where "p \<in> set s" by (cases s) auto
    then have "0 < np" using assms(4) by force
    then have sn: "size_t np = nat np" using assms(3) by (simp add: size_t_int)
    have "(length ([] :: int list) \<le> size_t c \<and> size_t c < size_t np)
      \<or> (size_t np < size_t c \<and> size_t np = nat np \<and> (\<forall>x\<in>set ([] :: int list). 0 \<le> x \<and> x < np))"
      using False sn sc assms(1) \<open>0 < np\<close> by auto
    then have "fo - 0 = int (length cpo) - int (length ([] :: int list))
        \<and> distinct cpo \<and> set cpo \<subseteq> set [] \<union> set s"
      using OPT_loop_bounds_differ [of "[]" c np s 0 cpo fo] assms(4) o by simp
    then have "fo = int (length cpo)" "distinct cpo" "set cpo \<subseteq> set s" by auto
    moreover have "card (set cpo) \<le> card (set s)"
      using calculation(3) by (intro card_mono) auto
    ultimately show ?thesis by (simp add: distinct_card)
  qed
  have "card (set s) \<le> m" using m(2) by (rule replay_from_empty_memory)
  then have fifo: "fo \<le> ff" using opt m(1) by simp
  have lru: "fo \<le> fl"
    if h: "LRU_CalculatePageFaults \<lparr>ref_string_m = s, num_pages_m = np, num_frames_m = c\<rparr> = Inr fl"
    for fl
  proof -
    obtain cpl where l: "LRU_loop c s ([], 0) = Inr (cpl, fl)"
      using LRU_CalculatePageFaults_returns [OF h] by auto
    obtain k where k: "fl = int k" "replay (frames (size_t c) []) (map Inr s) k"
      using LRU_loop_replay [OF c, of "[]" s 0 cpl fl] l by auto
    have "card (set s) \<le> k" using k(2) by (rule replay_from_empty_memory)
    then show ?thesis using opt k(1) by simp
  qed
  have "OPT_CalculatePageFaults \<lparr>ref_string_m = s, num_pages_m = np, num_frames_m = c\<rparr> = Inr fo"
    "FIFO_CalculatePageFaults \<lparr>ref_string_m = s, num_pages_m = np, num_frames_m = c\<rparr> = Inr ff"
    using o f by (simp_all add: OPT_CalculatePageFaults_def FIFO_CalculatePageFaults_def)
  then show ?thesis using fifo lru by blast
qed

section \<open>The fault counts of OPT\<close>

subsection \<open>The scenario of the specification\<close>

lemma scenario_FIFO:
  "FIFO_CalculatePageFaults
     \<lparr>ref_string_m = [1, 2, 3, 1, 2, 4, 1, 2, 3], num_pages_m = np, num_frames_m = 3\<rparr> = Inr 7"
  by (simp add: FIFO_CalculatePageFaults_def FIFO_step_def size_t_def pop_front_def)

text \<open>The fourth request of the scenario is a hit under LRU (see claim C9).\<close>

lemma scenario_LRU:
  "LRU_CalculatePageFaults
     \<lparr>ref_string_m = [1, 2, 3, 1, 2, 4, 1, 2, 3], num_pages_m = np, num_frames_m = 3\<rparr>
   = Inl InvalidIterator"
  by (simp add: LRU_CalculatePageFaults_def LRU_step_def LRU_touch.simps size_t_def
      deref_def erase_invalidated_def)

lemma scenario_OPT_three_pages:
  "OPT_CalculatePageFaults
     \<lparr>ref_string_m = [1, 2, 3, 1, 2, 4, 1, 2, 3], num_pages_m = 3, num_frames_m = 3\<rparr> = Inr 5"
  by (simp add: OPT_CalculatePageFaults_def OPT_step_def size_t_def)

lemma scenario_OPT_more_pages:
  assumes "3 < np" "np < 2 ^ 31"
  shows "OPT_CalculatePageFaults
     \<lparr>ref_string_m = [1, 2, 3, 1, 2, 4, 1, 2, 3], num_pages_m = np, num_frames_m = 3\<rparr> = Inr 3"
proof -
  have "size_t np = nat np" using assms by (simp add: size_t_int)
  then have np: "size_t np \<noteq> 0" "size_t np \<noteq> Suc 0" "size_t np \<noteq> Suc (Suc 0)"
    "size_t np \<noteq> Suc (Suc (Suc 0))"
    using assms by auto
  have nf: "size_t 3 = Suc (Suc (Suc 0))" by (simp add: size_t_def)
  show ?thesis
    using np by (simp add: OPT_CalculatePageFaults_def OPT_step_def nf)
qed

text \<open>
  Claim C3 says that the reference string \<open>[1, 2, 3, 1, 2, 4, 1, 2, 3]\<close> replayed with
  capacity 3 gives 7 faults under FIFO, 5 under LRU and 5 under OPT. FIFO returns 7
  (\<open>scenario_FIFO\<close>). OPT returns 5 when the number of pages is 3 as well
  (\<open>scenario_OPT_three_pages\<close>). With 3 frames and more than 3 pages, as the page id 4 of
  the string asks for, its memory never holds that many pages, the eviction branch is
  never taken, and the replay returns 3 (\<open>scenario_OPT_more_pages\<close>): so with 9 pages,
  the value the window starts with. The replay of LRU meets its first hit at the fourth
  request (\<open>scenario_LRU\<close>).
\<close>

theorem scenario_OPT_nine_pages:
  "OPT_CalculatePageFaults
     \<lparr>ref_string_m = [1, 2, 3, 1, 2, 4, 1, 2, 3], num_pages_m = 9, num_frames_m = 3\<rparr> = Inr 3"
  by (simp add: OPT_CalculatePageFaults_def OPT_step_def size_t_def)

subsection \<open>OPT with a number of pages that differs from the number of frames\<close>

text \<open>
  Claim C1 says that for every reference string and every capacity of at least 1, OPT
  returns at most as many faults as FIFO and as LRU on the same string with the same
  capacity. That holds when the number of pages equals the capacity
  (\<open>OPT_least_when_bounds_agree\<close>) and when every page id is below the number of pages
  (\<open>OPT_least_on_pages_below_bound\<close>). The source checks neither, and OPT evicts when its
  memory holds \<^verbatim>\<open>num_pages_\<close> pages: with 1 page and 2 frames it keeps one page only, and
  on \<open>[1, 2, 1]\<close> it returns 3 faults where FIFO, with the same 2 frames, returns 2. The
  replay of LRU has a hit at the last request of this string and returns no count.
\<close>

theorem OPT_more_faults_than_FIFO:
  "OPT_CalculatePageFaults \<lparr>ref_string_m = [1, 2, 1], num_pages_m = 1, num_frames_m = 2\<rparr> = Inr 3
   \<and> FIFO_CalculatePageFaults \<lparr>ref_string_m = [1, 2, 1], num_pages_m = 1, num_frames_m = 2\<rparr> = Inr 2
   \<and> LRU_CalculatePageFaults \<lparr>ref_string_m = [1, 2, 1], num_pages_m = 1, num_frames_m = 2\<rparr>
       = Inl InvalidIterator"
  by (simp add: OPT_CalculatePageFaults_def OPT_step_def FIFO_CalculatePageFaults_def
      FIFO_step_def LRU_CalculatePageFaults_def LRU_step_def LRU_touch.simps size_t_def
      pop_front_def deref_def erase_invalidated_def)

subsection \<open>A miss on a full memory\<close>

text \<open>
  Claim C2 says that in every replay of the three policies the memory never holds more
  than \<^verbatim>\<open>num_frames_\<close> pages, and that once it holds that many every miss removes exactly
  one page before the requested page is inserted. The bound on the size holds in every
  replay that returns (\<open>FIFO_loop_capacity\<close>, \<open>LRU_loop_capacity\<close>, \<open>OPT_loop_returns\<close>), and
  FIFO and LRU remove the head of the queue at a miss on a full memory (\<open>FIFO_step_miss_full\<close>,
  \<open>LRU_step_miss_full\<close>). Under OPT with 9 pages and 3 frames, the replay of \<open>[1, 2, 3]\<close>
  fills the memory, and the miss on page 4 that follows removes no page, inserts none
  and counts no fault.
\<close>

theorem OPT_miss_on_full_memory_ignored:
  "OPT_loop 9 3 [1, 2, 3] ([], 0) = Inr ([1, 2, 3], 3)
   \<and> OPT_step 9 3 4 [] ([1, 2, 3], 3) = Inr ([1, 2, 3], 3)"
  by (simp add: OPT_step_def size_t_def)

section \<open>The generator: results\<close>

lemma rand_mod_range: "1 < upper_bound \<Longrightarrow> 0 \<le> rand_mod r upper_bound \<and> rand_mod r upper_bound < upper_bound"
  by (cases "r = 0") (simp_all add: rand_mod_def smod_int_alt_def)

lemma rand_mod_one: "rand_mod r 1 = 0"
  by (simp add: rand_mod_def smod_int_alt_def)

subsection \<open>The redraw loop\<close>

lemma redraw_done:
  "0 < i \<Longrightarrow> i < length xs \<Longrightarrow> xs ! i \<noteq> xs ! (i - 1) \<Longrightarrow>
   redraw rnd upper_bound i xs k = Some (Inr (xs, k))"
  by (subst redraw.simps) simp

lemma redraw_again:
  "0 < i \<Longrightarrow> i < length xs \<Longrightarrow> xs ! i = xs ! (i - 1) \<Longrightarrow> upper_bound \<noteq> 0 \<Longrightarrow>
   redraw rnd upper_bound i xs k
     = redraw rnd upper_bound i (xs[i := rand_mod (rnd k) upper_bound]) (Suc k)"
  by (subst redraw.simps) simp

text \<open>
  If some draw from the \<open>k\<close>-th on differs from the previous element, the loop returns,
  with an element that differs from the previous one.
\<close>

lemma redraw_returns:
  assumes "k \<le> m" "rand_mod (rnd m) upper_bound \<noteq> xs ! (i - 1)" "0 < i" "i < length xs"
    "upper_bound \<noteq> 0"
  shows "\<exists>v k'. redraw rnd upper_bound i xs k = Some (Inr (xs[i := v], k'))
           \<and> v \<noteq> xs ! (i - 1) \<and> (v = xs ! i \<or> (\<exists>n. v = rand_mod (rnd n) upper_bound))"
  using assms
proof (induction k arbitrary: xs rule: inc_induct)
  case base
  show ?case
  proof (cases "xs ! i = xs ! (i - 1)")
    case False
    then have "redraw rnd upper_bound i xs m = Some (Inr (xs[i := xs ! i], m))"
      using base redraw_done [of i xs rnd upper_bound m] by simp
    then show ?thesis using False by blast
  next
    case True
    let ?v = "rand_mod (rnd m) upper_bound"
    let ?ys = "xs[i := ?v]"
    have "?ys ! i \<noteq> ?ys ! (i - 1)"
      using base by simp
    then have "redraw rnd upper_bound i ?ys (Suc m) = Some (Inr (?ys, Suc m))"
      using base redraw_done [of i ?ys rnd upper_bound "Suc m"] by simp
    then have "redraw rnd upper_bound i xs m = Some (Inr (?ys, Suc m))"
      using True base redraw_again [of i xs upper_bound rnd m] by simp
    then show ?thesis using base by blast
  qed
next
  case (step n)
  show ?case
  proof (cases "xs ! i = xs ! (i - 1)")
    case False
    then have "redraw rnd upper_bound i xs n = Some (Inr (xs[i := xs ! i], n))"
      using step.prems redraw_done [of i xs rnd upper_bound n] by simp
    then show ?thesis using False by blast
  next
    case True
    let ?ys = "xs[i := rand_mod (rnd n) upper_bound]"
    have "rand_mod (rnd m) upper_bound \<noteq> ?ys ! (i - 1)" "i < length ?ys"
      using step.prems by simp_all
    then obtain v k' where r: "redraw rnd upper_bound i ?ys (Suc n) = Some (Inr (?ys[i := v], k'))"
      and v: "v \<noteq> ?ys ! (i - 1)"
      "v = ?ys ! i \<or> (\<exists>n. v = rand_mod (rnd n) upper_bound)"
      using step.IH [of ?ys] step.prems by blast
    have "redraw rnd upper_bound i xs n = Some (Inr (xs[i := v], k'))"
      using r True step.prems redraw_again [of i xs upper_bound rnd n] by simp
    moreover have "v \<noteq> xs ! (i - 1)" using v(1) step.prems by simp
    moreover have "\<exists>n. v = rand_mod (rnd n) upper_bound"
      using v(2) step.prems by auto
    ultimately show ?thesis by blast
  qed
qed

subsection \<open>The loop over the positions\<close>

lemma gen_loop_returns:
  assumes varies: "\<forall>n v. \<exists>m\<ge>n. rand_mod (rnd m) upper_bound \<noteq> v" and ub: "1 < upper_bound"
  shows "0 < i \<Longrightarrow> int i \<le> sz \<Longrightarrow> length xs = nat sz \<Longrightarrow>
     (\<forall>j<i. 0 \<le> xs ! j \<and> xs ! j < upper_bound) \<Longrightarrow>
     (\<forall>j. Suc j < i \<longrightarrow> xs ! j \<noteq> xs ! Suc j) \<Longrightarrow>
     \<exists>ys k'. gen_loop rnd upper_bound sz i xs k = Some (Inr (ys, k')) \<and> length ys = nat sz
        \<and> (\<forall>j<nat sz. 0 \<le> ys ! j \<and> ys ! j < upper_bound)
        \<and> (\<forall>j. Suc j < nat sz \<longrightarrow> ys ! j \<noteq> ys ! Suc j)"
proof (induction "nat sz - i" arbitrary: i xs k)
  case 0
  then have i: "i = nat sz" by simp
  then have "gen_loop rnd upper_bound sz i xs k = Some (Inr (xs, k))"
    by (subst gen_loop.simps) simp
  then show ?case using 0 i by auto
next
  case (Suc d)
  then have i: "i < nat sz" "int i < sz" by simp_all
  let ?xs1 = "xs[i := rand_mod (rnd k) upper_bound]"
  obtain m where m: "Suc k \<le> m" "rand_mod (rnd m) upper_bound \<noteq> ?xs1 ! (i - 1)"
    using varies by blast
  have "i < length ?xs1" using i Suc.prems by simp
  then obtain v k' where r: "redraw rnd upper_bound i ?xs1 (Suc k) = Some (Inr (?xs1[i := v], k'))"
    and v: "v \<noteq> ?xs1 ! (i - 1)" "v = ?xs1 ! i \<or> (\<exists>n. v = rand_mod (rnd n) upper_bound)"
    using redraw_returns [of "Suc k" m rnd upper_bound ?xs1 i] m Suc.prems(1) ub by auto
  let ?ys = "xs[i := v]"
  have ys: "?xs1[i := v] = ?ys" by simp
  have vr: "0 \<le> v \<and> v < upper_bound"
    using v(2) rand_mod_range [OF ub] i Suc.prems by auto
  have vp: "v \<noteq> xs ! (i - 1)" using v(1) Suc.prems(1) by simp
  have a: "\<forall>j<Suc i. 0 \<le> ?ys ! j \<and> ?ys ! j < upper_bound"
    using Suc.prems vr i by (auto simp: nth_list_update less_Suc_eq)
  have b: "\<forall>j. Suc j < Suc i \<longrightarrow> ?ys ! j \<noteq> ?ys ! Suc j"
  proof (intro allI impI)
    fix j assume "Suc j < Suc i"
    then have "j < i" by simp
    show "?ys ! j \<noteq> ?ys ! Suc j"
    proof (cases "Suc j = i")
      case True
      then show ?thesis using vp i Suc.prems(3) by (auto simp: nth_list_update)
    next
      case False
      then have "Suc j < i" using \<open>j < i\<close> by simp
      then show ?thesis using Suc.prems(5) by (simp add: nth_list_update)
    qed
  qed
  have "d = nat sz - Suc i" using Suc.hyps(2) by simp
  then obtain zs k'' where z: "gen_loop rnd upper_bound sz (Suc i) ?ys k' = Some (Inr (zs, k''))"
    "length zs = nat sz" "\<forall>j<nat sz. 0 \<le> zs ! j \<and> zs ! j < upper_bound"
    "\<forall>j. Suc j < nat sz \<longrightarrow> zs ! j \<noteq> zs ! Suc j"
    using Suc.hyps(1) [of "Suc i" ?ys k'] a b i Suc.prems(3) by auto
  have "gen_loop rnd upper_bound sz i xs k = Some (Inr (zs, k''))"
    using i ub r ys z(1) by (subst gen_loop.simps) simp
  then show ?case using z by blast
qed


subsection \<open>Bounds the generator cannot serve\<close>

text \<open>
  When every draw gives the value of the previous element, the redraw loop has no run
  that returns.
\<close>

lemma redraw_never_returns_aux:
  assumes "redraw rnd upper_bound i xs k = Some y"
  shows "\<not> (0 < i \<and> i < length xs \<and> xs ! i = xs ! (i - 1) \<and> upper_bound \<noteq> 0
            \<and> (\<forall>m. rand_mod (rnd m) upper_bound = xs ! (i - 1)))"
proof (rule redraw.raw_induct [where P = "\<lambda>rnd upper_bound i xs k y.
          \<not> (0 < i \<and> i < length xs \<and> xs ! i = xs ! (i - 1) \<and> upper_bound \<noteq> 0
            \<and> (\<forall>m. rand_mod (rnd m) upper_bound = xs ! (i - 1)))", OF _ assms])
  fix redraw' :: "(nat \<Rightarrow> nat) \<Rightarrow> int \<Rightarrow> nat \<Rightarrow> int list \<Rightarrow> nat \<Rightarrow> (error + int list \<times> nat) option"
    and rnd upper_bound i xs k y
  assume IH: "\<And>rnd upper_bound i xs k y. redraw' rnd upper_bound i xs k = Some y \<Longrightarrow>
          \<not> (0 < i \<and> i < length xs \<and> xs ! i = xs ! (i - 1) \<and> upper_bound \<noteq> 0
            \<and> (\<forall>m. rand_mod (rnd m) upper_bound = xs ! (i - 1)))"
    and body: "(if i = 0 \<or> length xs \<le> i then Some (Inl OutOfRange)
      else if xs ! i = xs ! (i - 1)
           then if upper_bound = 0 then Some (Inl DivisionByZero)
                else redraw' rnd upper_bound i (xs[i := rand_mod (rnd k) upper_bound]) (Suc k)
           else Some (Inr (xs, k))) = Some y"
  show "\<not> (0 < i \<and> i < length xs \<and> xs ! i = xs ! (i - 1) \<and> upper_bound \<noteq> 0
            \<and> (\<forall>m. rand_mod (rnd m) upper_bound = xs ! (i - 1)))"
  proof
    assume a: "0 < i \<and> i < length xs \<and> xs ! i = xs ! (i - 1) \<and> upper_bound \<noteq> 0
            \<and> (\<forall>m. rand_mod (rnd m) upper_bound = xs ! (i - 1))"
    let ?ys = "xs[i := rand_mod (rnd k) upper_bound]"
    have "redraw' rnd upper_bound i ?ys (Suc k) = Some y"
      using body a by simp
    then have "\<not> (0 < i \<and> i < length ?ys \<and> ?ys ! i = ?ys ! (i - 1) \<and> upper_bound \<noteq> 0
            \<and> (\<forall>m. rand_mod (rnd m) upper_bound = ?ys ! (i - 1)))"
      by (rule IH)
    moreover have "i - 1 \<noteq> i" "i < length xs" using a by auto
    then have "?ys ! (i - 1) = xs ! (i - 1)" "?ys ! i = xs ! (i - 1)"
      using a by (simp_all del: One_nat_def)
    ultimately show False using a by simp
  qed
qed

lemma redraw_never_returns:
  "0 < i \<Longrightarrow> i < length xs \<Longrightarrow> xs ! i = xs ! (i - 1) \<Longrightarrow> upper_bound \<noteq> 0 \<Longrightarrow>
   \<forall>m. rand_mod (rnd m) upper_bound = xs ! (i - 1) \<Longrightarrow> redraw rnd upper_bound i xs k = None"
  using redraw_never_returns_aux [of rnd upper_bound i xs k]
  by (cases "redraw rnd upper_bound i xs k") auto

lemma GenerateRefString_one_diverges:
  assumes "1 < sz"
  shows "GenerateRefString rnd k sz 1 = None"
proof -
  let ?xs = "(replicate (nat sz) 0)[0 := rand_mod (rnd k) 1]"
  let ?ys = "?xs[1 := rand_mod (rnd (Suc k)) 1]"
  have "redraw rnd 1 1 ?ys (Suc (Suc k)) = None"
    using assms by (intro redraw_never_returns) (simp_all add: rand_mod_one)
  then have "gen_loop rnd 1 sz 1 ?xs (Suc k) = None"
    using assms by (subst gen_loop.simps) simp
  then show ?thesis
    using assms by (simp add: GenerateRefString_def)
qed

text \<open>
  Claim C6 says that the generator reports \<open>InvalidRange\<close> exactly when the request cannot
  be served: an upper bound of at most 0 with a positive size is rejected by a guard, not
  by a modulo by zero, and the upper bound 1 with a size above 1 is reported instead of
  looping. The source has no such guard. Called as the window calls it, with size 20,
  it computes \<^verbatim>\<open>rand() % 0\<close> for the upper bound 0, and for the upper bound 1 it never
  returns, whatever \<^verbatim>\<open>rand()\<close> gives.
\<close>

theorem GenerateRefString_no_guard:
  "GenerateRefString rnd k 20 0 = Some (Inl DivisionByZero)
   \<and> GenerateRefString rnd k 20 1 = None"
proof -
  have "GenerateRefString rnd k 20 1 = None"
    by (rule GenerateRefString_one_diverges) simp
  then show ?thesis by (simp add: GenerateRefString_def)
qed

text \<open>A negative upper bound is served: the remainder of C++ takes the sign of \<^verbatim>\<open>rand()\<close>.\<close>

lemma GenerateRefString_negative_bound:
  "GenerateRefString (\<lambda>n. n) 0 5 (- 3) = Some (Inr ([0, 1, 2, 0, 1], 5))"
  by code_simp

subsection \<open>Bounds the generator serves\<close>

text \<open>
  Claim C7: for every size above 0 and every upper bound above 1, the generator returns a
  sequence of that size, every element of it in \<open>[0, upper_bound)\<close> and no two adjacent
  elements equal; for the size 0 it returns the empty sequence, whatever the bound. The
  redraw loop ends only if \<^verbatim>\<open>rand()\<close> does not give the same remainder for ever: the
  theorem takes that as its hypothesis on the sequence \<open>rnd\<close>.
\<close>

theorem GenerateRefString_result:
  "(0 < sz \<and> 1 < upper_bound \<and> (\<forall>n v. \<exists>m\<ge>n. rand_mod (rnd m) upper_bound \<noteq> v) \<longrightarrow>
      (\<exists>xs k'. GenerateRefString rnd k sz upper_bound = Some (Inr (xs, k'))
         \<and> length xs = nat sz \<and> (\<forall>x\<in>set xs. 0 \<le> x \<and> x < upper_bound) \<and> distinct_adj xs))
   \<and> GenerateRefString rnd k 0 bound = Some (Inr ([], k))"
proof (intro conjI impI)
  show "GenerateRefString rnd k 0 bound = Some (Inr ([], k))"
    by (simp add: GenerateRefString_def)
next
  assume a: "0 < sz \<and> 1 < upper_bound \<and> (\<forall>n v. \<exists>m\<ge>n. rand_mod (rnd m) upper_bound \<noteq> v)"
  let ?xs = "(replicate (nat sz) 0)[0 := rand_mod (rnd k) upper_bound]"
  have "\<forall>j<1. 0 \<le> ?xs ! j \<and> ?xs ! j < upper_bound"
    using a rand_mod_range [of upper_bound "rnd k"] by simp
  then obtain ys k' where g: "gen_loop rnd upper_bound sz 1 ?xs (Suc k) = Some (Inr (ys, k'))"
    and l: "length ys = nat sz"
    and r: "\<forall>j<nat sz. 0 \<le> ys ! j \<and> ys ! j < upper_bound"
    and d: "\<forall>j. Suc j < nat sz \<longrightarrow> ys ! j \<noteq> ys ! Suc j"
    using gen_loop_returns [of rnd upper_bound 1 sz ?xs "Suc k"] a by auto
  have "GenerateRefString rnd k sz upper_bound = Some (Inr (ys, k'))"
    using a g by (simp add: GenerateRefString_def)
  moreover have "\<forall>x\<in>set ys. 0 \<le> x \<and> x < upper_bound"
    using r l by (auto simp: in_set_conv_nth)
  moreover have "distinct_adj ys"
    using d l by (simp add: distinct_adj_conv_nth)
  ultimately show "\<exists>xs k'. GenerateRefString rnd k sz upper_bound = Some (Inr (xs, k'))
         \<and> length xs = nat sz \<and> (\<forall>x\<in>set xs. 0 \<le> x \<and> x < upper_bound) \<and> distinct_adj xs"
    using l by blast
qed

lemma counting_varies: "\<forall>n v. \<exists>m\<ge>n. rand_mod m 2 \<noteq> v"
proof (intro allI)
  fix n :: nat and v :: int
  have "rand_mod n 2 \<noteq> rand_mod (Suc n) 2"
    by (cases "n = 0") (simp_all add: rand_mod_def smod_int_alt_def, presburger)
  then have "rand_mod n 2 \<noteq> v \<or> rand_mod (Suc n) 2 \<noteq> v" by auto
  then show "\<exists>m\<ge>n. rand_mod m 2 \<noteq> v"
    by (metis le_refl le_SucI)
qed

theorem GenerateRefString_result_witness:
  "GenerateRefString (\<lambda>n. n) 0 3 2 = Some (Inr ([0, 1, 0], 3))
   \<and> (\<exists>xs k'. GenerateRefString (\<lambda>n. n) 0 3 2 = Some (Inr (xs, k'))
         \<and> length xs = nat 3 \<and> (\<forall>x\<in>set xs. 0 \<le> x \<and> x < 2) \<and> distinct_adj xs)"
proof -
  have e: "GenerateRefString (\<lambda>n. n) 0 3 2 = Some (Inr ([0, 1, 0], 3))"
    by code_simp
  show ?thesis
    using e counting_varies GenerateRefString_result [of 3 2 "\<lambda>n. n" 0] by simp
qed

text \<open>
  The hypothesis on \<open>rnd\<close> cannot be dropped: when \<^verbatim>\<open>rand()\<close> returns one value for ever, the
  generator does not return a sequence of two or more elements.
\<close>

lemma GenerateRefString_constant_source:
  assumes "1 < sz" "upper_bound \<noteq> 0"
  shows "GenerateRefString (\<lambda>n. r) k sz upper_bound = None"
proof -
  let ?v = "rand_mod r upper_bound"
  let ?xs = "(replicate (nat sz) 0)[0 := ?v]"
  let ?ys = "?xs[1 := ?v]"
  have "redraw (\<lambda>n. r) upper_bound 1 ?ys (Suc (Suc k)) = None"
    using assms by (intro redraw_never_returns) simp_all
  then have "gen_loop (\<lambda>n. r) upper_bound sz 1 ?xs (Suc k) = None"
    using assms by (subst gen_loop.simps) simp
  then show ?thesis
    using assms by (simp add: GenerateRefString_def)
qed

end
